theory Spec2Isabelle
  imports Complex_Main "HOL-Library.Signed_Division" "HOL-Library.Monad_Syntax"
begin

section \<open>The dimension-subsampled Nystrom estimator (NystromD.cpp)\<close>

text \<open>
  A shallow embedding of \<^verbatim>\<open>shogun/distributions/kernel_exp_family/impl/NystromD.cpp\<close>.

  \<^item> \<^verbatim>\<open>index_t\<close> (a 32-bit signed integer) is \<open>int\<close>. The only arithmetic the
    modelled functions do on indices is \<^verbatim>\<open>idx / D\<close>, \<^verbatim>\<open>idx % D\<close>, the loop
    increments and the products \<^verbatim>\<open>N*D\<close> that size a container, so every value is
    bounded by the size of a container held in memory; C++ division truncates towards
    zero and is written \<open>sdiv\<close>/\<open>smod\<close>. The one counter that runs against a
    64-bit bound, in \<open>basis_inds_from_mask\<close>, fails where its increment overflows.
  \<^item> \<^verbatim>\<open>float64_t\<close> is a type variable with the operations \<open>0\<close>, \<open>+\<close>, \<open>-\<close>,
    \<open>*\<close> and no law assumed of them: what is proved of the matrices and of the
    evaluator holds for IEEE doubles as well as for exact arithmetic. Only \<open>compute_h\<close>,
    which converts \<^verbatim>\<open>N_data\<close> and divides, is written over a field; it is evaluated
    on inputs where every operation is exact in both readings.
  \<^item> Behaviour the C++ leaves undefined (a read or write outside a buffer, an integer
    division by zero) is the result \<open>None\<close>.
  \<^item> Each \<^verbatim>\<open>#pragma omp parallel for\<close> loop writes disjoint cells from read-only
    inputs and is modelled in index order.
\<close>

subsection \<open>Loops and containers\<close>

text \<open>\<^verbatim>\<open>for (auto i = i0; i < n; i++) body\<close>, the body threading a state and possibly failing.\<close>

function for_loop :: "int \<Rightarrow> int \<Rightarrow> (int \<Rightarrow> 's \<Rightarrow> 's option) \<Rightarrow> 's \<Rightarrow> 's option" where
  "for_loop i n body st =
     (if i < n then
        (case body i st of
           None \<Rightarrow> None
         | Some st' \<Rightarrow> for_loop (i + 1) n body st')
      else Some st)"
  by pat_completeness auto
termination
  by (relation "measure (\<lambda>(i, n, body, st). nat (n - i))") auto

declare for_loop.simps [simp del]

text \<open>\<^verbatim>\<open>v[i]\<close> on an \<^verbatim>\<open>SGVector\<close> or \<^verbatim>\<open>std::vector\<close>: no bounds check in the C++.\<close>

definition vec_get :: "'a list \<Rightarrow> int \<Rightarrow> 'a option" where
  "vec_get v i = (if 0 \<le> i \<and> i < int (length v) then Some (v ! nat i) else None)"

definition vec_set :: "'a list \<Rightarrow> int \<Rightarrow> 'a \<Rightarrow> 'a list option" where
  "vec_set v i x = (if 0 \<le> i \<and> i < int (length v) then Some (v[nat i := x]) else None)"

subsection \<open>Index mapper\<close>

text \<open>
  \<^verbatim>\<open>return std::pair<index_t, index_t>(idx / D, idx%D);\<close>
\<close>

definition idx_to_ai :: "int \<Rightarrow> int \<Rightarrow> (int \<times> int) option" where
  "idx_to_ai idx D = (if D = 0 then None else Some (idx sdiv D, idx smod D))"

subsection \<open>Dense matrices\<close>

text \<open>
  Modelled from the spec: \<^verbatim>\<open>SGMatrix\<close> (the header \<^verbatim>\<open>shogun/lib/SGMatrix.h\<close> is not
  part of the sources). A dense matrix is its two extents and one flat buffer in
  column-major order ("dense, column-major", one column per point); \<^verbatim>\<open>G(row, col)\<close>
  is the buffer cell \<open>col * num_rows + row\<close>, read and written without a bounds check.
\<close>

record 'a SGMatrix =
  num_rows :: int
  num_cols :: int
  matrix :: "'a list"

definition mat_get :: "'a SGMatrix \<Rightarrow> int \<Rightarrow> int \<Rightarrow> 'a option" where
  "mat_get G r c = vec_get (matrix G) (c * num_rows G + r)"

definition mat_set :: "'a SGMatrix \<Rightarrow> int \<Rightarrow> int \<Rightarrow> 'a \<Rightarrow> 'a SGMatrix option" where
  "mat_set G r c x =
     (case vec_set (matrix G) (c * num_rows G + r) x of
        None \<Rightarrow> None
      | Some m \<Rightarrow> Some (G\<lparr>matrix := m\<rparr>))"

text \<open>
  \<^verbatim>\<open>SGMatrix<float64_t> G(rows, cols);\<close> allocates without initialising: the cells hold
  whatever the storage held, given here by \<open>u\<close>.
\<close>

definition SGMatrix_new :: "(nat \<Rightarrow> 'a) \<Rightarrow> int \<Rightarrow> int \<Rightarrow> 'a SGMatrix" where
  "SGMatrix_new u rows cols =
     \<lparr>num_rows = rows, num_cols = cols, matrix = map u [0..<nat (rows * cols)]\<rparr>"

text \<open>\<^verbatim>\<open>SGVector<float64_t> v(n); v.zero();\<close> and the same for a matrix.\<close>

definition SGVector_zero :: "int \<Rightarrow> ('a::zero) list" where
  "SGVector_zero n = replicate (nat n) 0"

definition SGMatrix_zero :: "int \<Rightarrow> int \<Rightarrow> ('a::zero) SGMatrix" where
  "SGMatrix_zero rows cols =
     \<lparr>num_rows = rows, num_cols = cols, matrix = replicate (nat (rows * cols)) 0\<rparr>"

text \<open>\<^verbatim>\<open>v[i] += x\<close>, \<^verbatim>\<open>v[i] -= x\<close> and \<^verbatim>\<open>G(r, c) += x\<close>.\<close>

definition vec_add_at :: "('a::plus) list \<Rightarrow> int \<Rightarrow> 'a \<Rightarrow> 'a list option" where
  "vec_add_at v i x = do { old \<leftarrow> vec_get v i; vec_set v i (old + x) }"

definition vec_sub_at :: "('a::minus) list \<Rightarrow> int \<Rightarrow> 'a \<Rightarrow> 'a list option" where
  "vec_sub_at v i x = do { old \<leftarrow> vec_get v i; vec_set v i (old - x) }"

definition mat_add_at :: "('a::plus) SGMatrix \<Rightarrow> int \<Rightarrow> int \<Rightarrow> 'a \<Rightarrow> 'a SGMatrix option" where
  "mat_add_at G r c x = do { old \<leftarrow> mat_get G r c; mat_set G r c (old + x) }"

subsection \<open>Kernel service and estimator state\<close>

text \<open>
  The kernel service (\<^verbatim>\<open>kernel/Base.h\<close>) is not part of the sources: its derivative
  contractions are parameters, total functions of their index arguments.
\<close>

record 'a kernel =
  dx_component :: "int \<Rightarrow> int \<Rightarrow> int \<Rightarrow> 'a"
  dx_dy_component :: "int \<Rightarrow> int \<Rightarrow> int \<Rightarrow> int \<Rightarrow> 'a"
  dx_dy_dy_component :: "int \<Rightarrow> int \<Rightarrow> int \<Rightarrow> int \<Rightarrow> 'a"
  dx_i_dx_j_component :: "int \<Rightarrow> int \<Rightarrow> int \<Rightarrow> 'a list"
  dx_i_dx_j_dx_k_dot_vec_component :: "int \<Rightarrow> int \<Rightarrow> 'a list \<Rightarrow> int \<Rightarrow> int \<Rightarrow> 'a"

text \<open>
  The estimator. \<^verbatim>\<open>get_num_dimensions()\<close>, \<^verbatim>\<open>get_num_basis()\<close> and
  \<^verbatim>\<open>get_num_data()\<close> are accessors of the base class (not part of the sources) and are
  fields here; \<open>m_basis_inds\<close>, \<open>m_beta\<close> and \<open>m_kernel\<close> are the members the file uses.
\<close>

record 'a NystromD =
  get_num_dimensions :: int
  get_num_basis :: int
  get_num_data :: int
  m_basis_inds :: "int list"
  m_beta :: "'a list"
  m_kernel :: "'a kernel"

datatype log_line =
    Warning_zero_components int
  | Info_using_components int int int int

subsection \<open>Basis selector\<close>

text \<open>
  Modelled from the spec: \<^verbatim>\<open>CMath::qsort\<close> (\<^verbatim>\<open>shogun/mathematics/Math.h\<close> is not part
  of the sources) sorts the vector ascending.
\<close>

definition qsort :: "int list \<Rightarrow> int list" where
  "qsort v = sort v"

text \<open>
  \<^verbatim>\<open>i++\<close> on a 32-bit \<^verbatim>\<open>int\<close>: undefined at \<^verbatim>\<open>INT_MAX\<close>.
\<close>

definition int32_incr :: "int \<Rightarrow> int option" where
  "int32_incr i = (if i < 2147483647 then Some (i + 1) else None)"

text \<open>
  The scan counts with \<^verbatim>\<open>auto i=0\<close>, a 32-bit \<^verbatim>\<open>int\<close>, against the
  \<^verbatim>\<open>int64_t\<close> bound \<^verbatim>\<open>num_mask_elements\<close>: on a mask of more than
  \<open>2147483647\<close> entries the increment after the iteration at \<^verbatim>\<open>INT_MAX\<close>
  overflows. Every other loop of the file runs against an \<^verbatim>\<open>index_t\<close> bound,
  which its counter reaches without overflow.
\<close>

definition basis_inds_from_mask :: "bool SGMatrix \<Rightarrow> int list option" where
  "basis_inds_from_mask basis_mask =
     (let num_mask_elements = num_rows basis_mask * num_cols basis_mask in
      do {
        basis_inds_dynamic \<leftarrow>
          for_loop 0 num_mask_elements
            (\<lambda>i acc. do {
               m \<leftarrow> vec_get (matrix basis_mask) i;
               next_i \<leftarrow> int32_incr i;
               Some (if m then acc @ [i] else acc)
             }) [];
        Some (qsort basis_inds_dynamic)
      })"

text \<open>\<^verbatim>\<open>std::set<index_t>\<close>: an ascending list without duplicates; \<^verbatim>\<open>set.insert(x)\<close>.\<close>

fun set_insert :: "int \<Rightarrow> int list \<Rightarrow> int list" where
  "set_insert x [] = [x]"
| "set_insert x (y # ys) =
     (if x < y then x # y # ys else if x = y then y # ys else y # set_insert x ys)"

definition get_basis_point_inds :: "'a NystromD \<Rightarrow> int list \<Rightarrow> int list option" where
  "get_basis_point_inds s basis_inds =
     (let D = get_num_dimensions s in
      for_loop 0 (int (length basis_inds))
        (\<lambda>i st. do {
           x \<leftarrow> vec_get basis_inds i;
           ai \<leftarrow> idx_to_ai x D;
           Some (set_insert (fst ai) st)
         }) [])"

text \<open>\<^verbatim>\<open>std::set_difference\<close> on two ascending ranges.\<close>

fun set_difference :: "int list \<Rightarrow> int list \<Rightarrow> int list" where
  "set_difference [] ys = []"
| "set_difference (x # xs) [] = x # xs"
| "set_difference (x # xs) (y # ys) =
     (if x < y then x # set_difference xs (y # ys)
      else if y < x then set_difference (x # xs) ys
      else set_difference xs ys)"

text \<open>The lines written to the log are returned beside the new state.\<close>

definition set_basis_inds_from_mask ::
  "bool SGMatrix \<Rightarrow> 'a NystromD \<Rightarrow> ('a NystromD \<times> log_line list) option" where
  "set_basis_inds_from_mask basis_mask s =
     do {
       inds \<leftarrow> basis_inds_from_mask basis_mask;
       let s' = s\<lparr>m_basis_inds := inds\<rparr>;
       basis_point_inds \<leftarrow> get_basis_point_inds s' (m_basis_inds s');
       let N = num_cols basis_mask;
       all_inds \<leftarrow> for_loop 0 N (\<lambda>i acc. Some (acc @ [i])) [];
       let unused = set_difference all_inds basis_point_inds;
       warnings \<leftarrow>
         for_loop 0 (int (length unused))
           (\<lambda>i out. do {
              u \<leftarrow> vec_get unused i;
              Some (out @ [Warning_zero_components u])
            }) [];
       Some (s', warnings @
         [Info_using_components (int (length (m_basis_inds s'))) (num_rows basis_mask)
            (num_cols basis_mask) (num_rows basis_mask * num_cols basis_mask)])
     }"

subsection \<open>System builder\<close>

definition get_system_size :: "'a NystromD \<Rightarrow> int" where
  "get_system_size s = int (length (m_basis_inds s))"

definition compute_h :: "('a::field) NystromD \<Rightarrow> 'a list option" where
  "compute_h s =
     (let D = get_num_dimensions s;
          N_basis = get_num_basis s;
          N_data = get_num_data s;
          system_size = N_basis * D;
          ND = N_data * D
      in do {
        h \<leftarrow>
          for_loop 0 system_size
            (\<lambda>idx_k h. do {
               x \<leftarrow> vec_get (m_basis_inds s) idx_k;
               ai \<leftarrow> idx_to_ai x D;
               let a = fst ai; i = snd ai in
               for_loop 0 ND
                 (\<lambda>b h.
                    for_loop 0 system_size
                      (\<lambda>idx_l h. do {
                         y \<leftarrow> vec_get (m_basis_inds s) idx_l;
                         temp \<leftarrow> idx_to_ai y D;
                         if fst temp \<noteq> b then Some h
                         else
                           let j = snd temp in
                           vec_add_at h idx_k (dx_dy_dy_component (m_kernel s) a b i j)
                       }) h) h
             }) (SGVector_zero system_size);
        Some (map (\<lambda>x. x * (1 / of_int N_data)) h)
      })"


definition compute_G_mm :: "(nat \<Rightarrow> 'a) \<Rightarrow> 'a NystromD \<Rightarrow> 'a SGMatrix option" where
  "compute_G_mm u s =
     (let system_size = get_system_size s;
          D = get_num_dimensions s
      in
        for_loop 0 (int (length (m_basis_inds s)))
          (\<lambda>idx_l G_mm. do {
             x \<leftarrow> vec_get (m_basis_inds s) idx_l;
             ai \<leftarrow> idx_to_ai x D;
             let a = fst ai; i = snd ai in
             for_loop 0 (int (length (m_basis_inds s)))
               (\<lambda>idx_k G_mm. do {
                  y \<leftarrow> vec_get (m_basis_inds s) idx_k;
                  bj \<leftarrow> idx_to_ai y D;
                  let b = fst bj; j = snd bj in
                  mat_set G_mm idx_k idx_l (dx_dy_component (m_kernel s) b a j i)
                }) G_mm
           }) (SGMatrix_new u system_size system_size))"


subsection \<open>Evaluator\<close>

definition log_pdf :: "('a::{zero,plus,times}) NystromD \<Rightarrow> int \<Rightarrow> 'a option" where
  "log_pdf s idx_test =
     (let D = get_num_dimensions s;
          system_size = get_system_size s
      in
        for_loop 0 system_size
          (\<lambda>idx_l beta_sum. do {
             x \<leftarrow> vec_get (m_basis_inds s) idx_l;
             ai \<leftarrow> idx_to_ai x D;
             let a = fst ai; i = snd ai;
                 grad_x_xa = dx_component (m_kernel s) a idx_test i in
             do {
               beta_l \<leftarrow> vec_get (m_beta s) idx_l;
               Some (beta_sum + beta_l * grad_x_xa)
             }
           }) 0)"

definition grad :: "('a::{zero,minus,times}) NystromD \<Rightarrow> int \<Rightarrow> 'a list option" where
  "grad s idx_test =
     (let D = get_num_dimensions s;
          system_size = get_system_size s
      in
        for_loop 0 system_size
          (\<lambda>idx_l beta_grad_sum. do {
             x \<leftarrow> vec_get (m_basis_inds s) idx_l;
             ai \<leftarrow> idx_to_ai x D;
             let a = fst ai; i = snd ai;
                 left_arg_hessian = dx_i_dx_j_component (m_kernel s) a idx_test i in
             for_loop 0 system_size
               (\<lambda>idx_k beta_grad_sum. do {
                  y \<leftarrow> vec_get (m_basis_inds s) idx_k;
                  bj \<leftarrow> idx_to_ai y D;
                  let b = fst bj in
                  if a \<noteq> b then Some beta_grad_sum
                  else
                    let j = snd bj in
                    do {
                      hess_j \<leftarrow> vec_get left_arg_hessian j;
                      beta_k \<leftarrow> vec_get (m_beta s) idx_k;
                      vec_sub_at beta_grad_sum i (hess_j * beta_k)
                    }
                }) beta_grad_sum
           }) (SGVector_zero D))"

definition get_beta_for_basis_point :: "('a::zero) NystromD \<Rightarrow> int \<Rightarrow> 'a list option" where
  "get_beta_for_basis_point s a =
     (let D = get_num_dimensions s;
          system_size = get_system_size s
      in
        for_loop 0 system_size
          (\<lambda>idx_k beta_a. do {
             y \<leftarrow> vec_get (m_basis_inds s) idx_k;
             bj \<leftarrow> idx_to_ai y D;
             let b = fst bj; j = snd bj in
             if a \<noteq> b then Some beta_a
             else do {
               beta_k \<leftarrow> vec_get (m_beta s) idx_k;
               vec_set beta_a j beta_k
             }
           }) (SGVector_zero D))"

definition hessian :: "('a::{zero,plus}) NystromD \<Rightarrow> int \<Rightarrow> 'a SGMatrix option" where
  "hessian s idx_test =
     (let D = get_num_dimensions s;
          system_size = get_system_size s
      in
        for_loop 0 system_size
          (\<lambda>idx_l beta_sum_hessian. do {
             x \<leftarrow> vec_get (m_basis_inds s) idx_l;
             ai \<leftarrow> idx_to_ai x D;
             let a = fst ai; i = snd ai in
             do {
               beta_a \<leftarrow> get_beta_for_basis_point s a;
               for_loop 0 system_size
                 (\<lambda>idx_k beta_sum_hessian. do {
                    y \<leftarrow> vec_get (m_basis_inds s) idx_k;
                    bj \<leftarrow> idx_to_ai y D;
                    let b = fst bj in
                    if a \<noteq> b then Some beta_sum_hessian
                    else
                      let j = snd bj;
                          beta_hess_sum =
                            dx_i_dx_j_dx_k_dot_vec_component (m_kernel s) a idx_test beta_a i j
                      in mat_add_at beta_sum_hessian i j beta_hess_sum
                  }) beta_sum_hessian
             }
           }) (SGMatrix_zero D D))"

definition hessian_diag :: "('a::{zero,plus}) NystromD \<Rightarrow> int \<Rightarrow> 'a list option" where
  "hessian_diag s idx_test =
     (let D = get_num_dimensions s;
          system_size = get_system_size s
      in
        for_loop 0 system_size
          (\<lambda>idx_l beta_sum_hessian_diag. do {
             x \<leftarrow> vec_get (m_basis_inds s) idx_l;
             ai \<leftarrow> idx_to_ai x D;
             let a = fst ai; i = snd ai in
             do {
               beta_a \<leftarrow> get_beta_for_basis_point s a;
               let beta_hess_sum =
                     dx_i_dx_j_dx_k_dot_vec_component (m_kernel s) a idx_test beta_a i i
               in vec_add_at beta_sum_hessian_diag i beta_hess_sum
             }
           }) (SGVector_zero D))"

text \<open>
  The active component \<open>k\<close> of a state, as the index mapper decodes it: its basis point
  and its dimension.
\<close>

definition basis_point :: "'a NystromD \<Rightarrow> nat \<Rightarrow> int" where
  "basis_point s k = (m_basis_inds s ! k) sdiv get_num_dimensions s"

definition basis_dim :: "'a NystromD \<Rightarrow> nat \<Rightarrow> int" where
  "basis_dim s k = (m_basis_inds s ! k) smod get_num_dimensions s"

text \<open>The sum of \<open>f 0, \<dots>, f (n - 1)\<close>, added from the left in this order, starting from zero.\<close>

definition lsum :: "(nat \<Rightarrow> 'a) \<Rightarrow> nat \<Rightarrow> ('a::{zero,plus})" where
  "lsum f n = foldl (\<lambda>acc k. acc + f k) 0 [0..<n]"

subsection \<open>A concrete estimator\<close>

text \<open>
  A small state on which the definitions are evaluated: two dimensions, two points,
  the components \<open>(0,0)\<close>, \<open>(0,1)\<close> and \<open>(1,1)\<close> active.
\<close>

definition example_kernel :: "('a::comm_ring_1) kernel" where
  "example_kernel =
     \<lparr>dx_component = (\<lambda>a b i. of_int (a + 2 * b + 3 * i + 1)),
      dx_dy_component = (\<lambda>a b i j. of_int (a * b + i * j + 1)),
      dx_dy_dy_component = (\<lambda>a b i j. 1),
      dx_i_dx_j_component = (\<lambda>a b i. [of_int (a + b + 1), of_int (i + 2)]),
      dx_i_dx_j_dx_k_dot_vec_component = (\<lambda>a b v i j. sum_list v + of_int (a + b + i * j))\<rparr>"

definition example_state :: "('a::comm_ring_1) NystromD" where
  "example_state =
     \<lparr>get_num_dimensions = 2, get_num_basis = 2, get_num_data = 2,
      m_basis_inds = [0, 1, 3], m_beta = [2, 3, 5], m_kernel = example_kernel\<rparr>"

subsection \<open>Notions used in the statements\<close>

text \<open>
  The matrix with the given extents whose entry \<open>(row, col)\<close> is \<open>f row col\<close>, and the
  kernel values that the two system matrices hold at \<open>(k, l)\<close>.
\<close>

definition matrix_of_entries :: "int \<Rightarrow> int \<Rightarrow> (int \<Rightarrow> int \<Rightarrow> 'a) \<Rightarrow> 'a SGMatrix" where
  "matrix_of_entries rows cols f =
     \<lparr>num_rows = rows, num_cols = cols,
      matrix = map (\<lambda>p. f (int p mod rows) (int p div rows)) [0..<nat (rows * cols)]\<rparr>"

definition G_mm_entry :: "'a NystromD \<Rightarrow> int \<Rightarrow> int \<Rightarrow> 'a" where
  "G_mm_entry s k l =
     dx_dy_component (m_kernel s) (basis_point s (nat k)) (basis_point s (nat l))
       (basis_dim s (nat k)) (basis_dim s (nat l))"


text \<open>
  The value the specification gives for entry \<open>k\<close> of \<open>compute_h\<close>: \<open>1/N_data\<close> times
  the sum over all data points \<open>b\<close> and all dimensions \<open>j\<close> of
  \<open>dx_dy_dy_component(a, b, i, j)\<close>, where \<open>(a, i)\<close> is component \<open>k\<close>.
\<close>

definition h_claimed :: "('a::field) NystromD \<Rightarrow> nat \<Rightarrow> 'a" where
  "h_claimed s k =
     (1 / of_int (get_num_data s)) *
       lsum (\<lambda>b. lsum (\<lambda>j. dx_dy_dy_component (m_kernel s)
                               (basis_point s k) (int b) (basis_dim s k) (int j))
                    (nat (get_num_dimensions s)))
            (nat (get_num_data s))"

text \<open>
  Two states the constructors produce. An explicit basis of one point for data of two
  points in one dimension, the mask fully set; and one data point in two dimensions
  whose mask activates dimension 0 only.
\<close>

definition explicit_basis_state :: "rat NystromD" where
  "explicit_basis_state =
     \<lparr>get_num_dimensions = 1, get_num_basis = 1, get_num_data = 2,
      m_basis_inds = [0], m_beta = [], m_kernel = example_kernel\<rparr>"

definition partial_mask_state :: "rat NystromD" where
  "partial_mask_state =
     \<lparr>get_num_dimensions = 2, get_num_basis = 1, get_num_data = 1,
      m_basis_inds = [0], m_beta = [], m_kernel = example_kernel\<rparr>"



section \<open>Properties\<close>

subsection \<open>Index mapper\<close>

lemma sdiv_nonneg_eq: "0 \<le> (k::int) \<Longrightarrow> 0 < l \<Longrightarrow> k sdiv l = k div l"
  by (simp add: signed_divide_int_def sgn_if)

lemma smod_nonneg_eq: "0 \<le> (k::int) \<Longrightarrow> 0 < l \<Longrightarrow> k smod l = k mod l"
  by (simp add: signed_modulo_int_def sgn_if)

lemma idx_to_ai_nonneg:
  "0 \<le> idx \<Longrightarrow> 0 < D \<Longrightarrow> idx_to_ai idx D = Some (idx div D, idx mod D)"
  by (simp add: idx_to_ai_def sdiv_nonneg_eq smod_nonneg_eq)

lemma idx_to_ai_Some: "D \<noteq> 0 \<Longrightarrow> idx_to_ai x D = Some (x sdiv D, x smod D)"
  by (simp add: idx_to_ai_def)

lemma sdiv_smod_inj:
  assumes "(x::int) sdiv D = y sdiv D" "x smod D = y smod D"
  shows "x = y"
proof -
  have "x = x sdiv D * D + x smod D" by (simp only: sdiv_mult_smod_eq)
  also have "\<dots> = y sdiv D * D + y smod D" by (simp only: assms)
  also have "\<dots> = y" by (simp only: sdiv_mult_smod_eq)
  finally show ?thesis .
qed

text \<open>
  Claim C3. For every \<open>D > 0\<close> and every non-negative \<open>idx\<close>, \<open>idx_to_ai idx D\<close> returns
  the pair \<open>(idx div D, idx mod D)\<close>; the returned point and dimension satisfy
  \<open>point * D + dimension = idx\<close> with the dimension in \<open>[0, D)\<close>; and decoding the
  encoding \<open>p * D + d\<close> of any pair with \<open>0 \<le> p\<close> and \<open>0 \<le> d < D\<close> gives the pair back.
\<close>

theorem idx_to_ai_roundtrip:
  assumes "0 < D" and "0 \<le> idx"
  shows "(\<exists>p d. idx_to_ai idx D = Some (p, d) \<and> p = idx div D \<and> d = idx mod D
            \<and> p * D + d = idx \<and> 0 \<le> p \<and> 0 \<le> d \<and> d < D)
         \<and> (\<forall>p d. 0 \<le> p \<and> 0 \<le> d \<and> d < D \<longrightarrow> idx_to_ai (p * D + d) D = Some (p, d))"
  using assms by (simp add: idx_to_ai_nonneg pos_imp_zdiv_nonneg_iff)

theorem idx_to_ai_roundtrip_witness:
  "idx_to_ai 7 3 = Some (2, 1) \<and> 2 * 3 + 1 = (7::int) \<and> idx_to_ai (2 * 3 + 1) 3 = Some (2, 1)"
  using idx_to_ai_roundtrip [of 3 7] by simp

subsection \<open>Loops and containers\<close>

text \<open>
  A loop is reasoned about through an invariant (\<open>for_loop_rule\<close>), two loops over the
  same range through a relation between their states (\<open>for_loop_rule2\<close>).
\<close>

lemma for_loop_done: "n \<le> i \<Longrightarrow> for_loop i n body st = Some st"
  by (simp add: for_loop.simps)

lemma for_loop_step:
  "i < n \<Longrightarrow> body i st = Some st' \<Longrightarrow> for_loop i n body st = for_loop (i + 1) n body st'"
  by (subst for_loop.simps) simp

lemma for_loop_rule:
  assumes "I i st" and "i \<le> n"
    and step: "\<And>k t. i \<le> k \<Longrightarrow> k < n \<Longrightarrow> I k t \<Longrightarrow> \<exists>t'. body k t = Some t' \<and> I (k + 1) t'"
  shows "\<exists>t. for_loop i n body st = Some t \<and> I n t"
  using assms(1,2) step
proof (induction "nat (n - i)" arbitrary: i st)
  case 0
  then have "i = n" by simp
  with 0 show ?case by (simp add: for_loop_done)
next
  case (Suc m)
  then have lt: "i < n" by linarith
  from Suc.prems(3) [OF order_refl lt Suc.prems(1)]
  obtain t' where b: "body i st = Some t'" and I': "I (i + 1) t'" by blast
  have "\<exists>t. for_loop (i + 1) n body t' = Some t \<and> I n t"
  proof (rule Suc.hyps(1))
    show "m = nat (n - (i + 1))" using Suc.hyps(2) by linarith
    show "I (i + 1) t'" by (rule I')
    show "i + 1 \<le> n" using lt by simp
    show "\<And>k t. i + 1 \<le> k \<Longrightarrow> k < n \<Longrightarrow> I k t \<Longrightarrow> \<exists>t'. body k t = Some t' \<and> I (k + 1) t'"
      using Suc.prems(3) by simp
  qed
  then show ?case using for_loop_step [of i n body st t'] lt b by simp
qed

lemma for_loop_rule2:
  assumes "R i s1 s2" and "i \<le> n"
    and step: "\<And>k t1 t2. i \<le> k \<Longrightarrow> k < n \<Longrightarrow> R k t1 t2 \<Longrightarrow>
                 \<exists>t1' t2'. body1 k t1 = Some t1' \<and> body2 k t2 = Some t2' \<and> R (k + 1) t1' t2'"
  shows "\<exists>t1 t2. for_loop i n body1 s1 = Some t1 \<and> for_loop i n body2 s2 = Some t2 \<and> R n t1 t2"
  using assms(1,2) step
proof (induction "nat (n - i)" arbitrary: i s1 s2)
  case 0
  then have "i = n" by simp
  with 0 show ?case by (simp add: for_loop_done)
next
  case (Suc m)
  then have lt: "i < n" by linarith
  from Suc.prems(3) [OF order_refl lt Suc.prems(1)]
  obtain t1' t2' where b: "body1 i s1 = Some t1'" "body2 i s2 = Some t2'"
    and R': "R (i + 1) t1' t2'" by blast
  have "\<exists>t1 t2. for_loop (i + 1) n body1 t1' = Some t1 \<and> for_loop (i + 1) n body2 t2' = Some t2
          \<and> R n t1 t2"
  proof (rule Suc.hyps(1))
    show "m = nat (n - (i + 1))" using Suc.hyps(2) by linarith
    show "R (i + 1) t1' t2'" by (rule R')
    show "i + 1 \<le> n" using lt by simp
    show "\<And>k t1 t2. i + 1 \<le> k \<Longrightarrow> k < n \<Longrightarrow> R k t1 t2 \<Longrightarrow>
            \<exists>t1' t2'. body1 k t1 = Some t1' \<and> body2 k t2 = Some t2' \<and> R (k + 1) t1' t2'"
      using Suc.prems(3) by simp
  qed
  then show ?case
    using for_loop_step [of i n body1 s1 t1'] for_loop_step [of i n body2 s2 t2'] lt b by simp
qed

lemma for_loop_preserves:
  assumes "P st"
    and "\<And>k t. i \<le> k \<Longrightarrow> k < n \<Longrightarrow> P t \<Longrightarrow> \<exists>t'. body k t = Some t' \<and> P t'"
  shows "\<exists>t. for_loop i n body st = Some t \<and> P t"
proof (cases "i \<le> n")
  case True
  show ?thesis
    by (rule for_loop_rule [where I = "\<lambda>_. P"]) (use True assms in auto)
next
  case False
  then show ?thesis using assms(1) by (simp add: for_loop_done)
qed

lemma for_loop_cong_range:
  assumes "\<And>k t. i \<le> k \<Longrightarrow> k < n \<Longrightarrow> body k t = body' k t"
  shows "for_loop i n body st = for_loop i n body' st"
  using assms
proof (induction "nat (n - i)" arbitrary: i st)
  case 0
  then show ?case by (simp add: for_loop_done)
next
  case (Suc m)
  then have lt: "i < n" by linarith
  have b: "body i st = body' i st" using Suc.prems lt by simp
  show ?case
  proof (cases "body i st")
    case None
    then show ?thesis using b lt by (simp add: for_loop.simps [of i])
  next
    case (Some t)
    have "for_loop (i + 1) n body t = for_loop (i + 1) n body' t"
    proof (rule Suc.hyps(1))
      show "m = nat (n - (i + 1))" using Suc.hyps(2) by linarith
      show "\<And>k t. i + 1 \<le> k \<Longrightarrow> k < n \<Longrightarrow> body k t = body' k t" using Suc.prems by simp
    qed
    then show ?thesis using Some b lt by (simp add: for_loop.simps [of i])
  qed
qed

lemma vec_get_Some: "0 \<le> i \<Longrightarrow> i < int (length v) \<Longrightarrow> vec_get v i = Some (v ! nat i)"
  by (simp add: vec_get_def)

lemma vec_set_Some: "0 \<le> i \<Longrightarrow> i < int (length v) \<Longrightarrow> vec_set v i x = Some (v[nat i := x])"
  by (simp add: vec_set_def)

lemma vec_sub_at_Some:
  "0 \<le> i \<Longrightarrow> i < int (length v) \<Longrightarrow> vec_sub_at v i x = Some (v[nat i := v ! nat i - x])"
  by (simp add: vec_sub_at_def vec_get_Some vec_set_Some)

lemma vec_add_at_Some:
  "0 \<le> i \<Longrightarrow> i < int (length v) \<Longrightarrow> vec_add_at v i x = Some (v[nat i := v ! nat i + x])"
  by (simp add: vec_add_at_def vec_get_Some vec_set_Some)

lemma flat_index_inj:
  assumes "0 \<le> r" "r < D" "0 \<le> r'" "r' < D" "c * D + r = c' * D + (r'::int)"
  shows "c = c' \<and> r = r'"
proof -
  have "(c * D + r) div D = c" "(c' * D + r') div D = c'"
    using assms(1-4) by simp_all
  then have c: "c = c'" using assms(5) by simp
  then show ?thesis using assms(5) by simp
qed

lemma flat_index_range:
  assumes "0 \<le> r" "r < R" "0 \<le> c" "c < (C::int)"
  shows "0 \<le> c * R + r \<and> c * R + r < R * C"
proof -
  have "c * R + r < c * R + R" using assms by simp
  also have "\<dots> = (c + 1) * R" by (simp add: algebra_simps)
  also have "\<dots> \<le> C * R" using assms by (intro mult_right_mono) simp_all
  finally show ?thesis using assms by (simp add: mult.commute)
qed

lemma int_div_less_bound:
  assumes "0 < (n::int)" "p < c * n"
  shows "p div n < c"
proof (rule ccontr)
  assume "\<not> p div n < c"
  then have "c * n \<le> p div n * n" using assms(1) by (intro mult_right_mono) simp_all
  moreover have "0 \<le> p mod n" using assms(1) by simp
  moreover have "p div n * n + p mod n = p" by simp
  ultimately show False using assms(2) by linarith
qed

lemma mat_get_Some:
  "0 \<le> c * num_rows G + r \<Longrightarrow> c * num_rows G + r < int (length (matrix G)) \<Longrightarrow>
   mat_get G r c = Some (matrix G ! nat (c * num_rows G + r))"
  by (simp add: mat_get_def vec_get_Some)

lemma mat_set_Some:
  "0 \<le> c * num_rows G + r \<Longrightarrow> c * num_rows G + r < int (length (matrix G)) \<Longrightarrow>
   mat_set G r c x = Some (G\<lparr>matrix := (matrix G)[nat (c * num_rows G + r) := x]\<rparr>)"
  by (simp add: mat_set_def vec_set_Some)

lemma mat_add_at_Some:
  "0 \<le> c * num_rows G + r \<Longrightarrow> c * num_rows G + r < int (length (matrix G)) \<Longrightarrow>
   mat_add_at G r c x =
     Some (G\<lparr>matrix := (matrix G)[nat (c * num_rows G + r) := matrix G ! nat (c * num_rows G + r) + x]\<rparr>)"
  by (simp add: mat_add_at_def mat_get_Some mat_set_Some)

lemmas eval_simps = example_state_def example_kernel_def for_loop.simps vec_get_def vec_set_def
  idx_to_ai_def signed_divide_int_def signed_modulo_int_def get_system_size_def Let_def
  SGVector_zero_def SGMatrix_zero_def eval_nat_numeral

lemmas mat_eval_simps = mat_get_def mat_set_def mat_add_at_def vec_add_at_def vec_sub_at_def
  SGMatrix_new_def

subsection \<open>Active components\<close>

lemma component_inj:
  assumes "distinct (m_basis_inds s)" "k < length (m_basis_inds s)" "k' < length (m_basis_inds s)"
    and "basis_point s k = basis_point s k'" "basis_dim s k = basis_dim s k'"
  shows "k = k'"
proof -
  have "m_basis_inds s ! k = m_basis_inds s ! k'"
    using assms(4,5) unfolding basis_point_def basis_dim_def by (rule sdiv_smod_inj)
  then show ?thesis using assms(1-3) by (simp add: nth_eq_iff_index_eq)
qed

lemma basis_dim_range:
  assumes "0 < get_num_dimensions s" "0 \<le> m_basis_inds s ! k"
  shows "0 \<le> basis_dim s k \<and> basis_dim s k < get_num_dimensions s"
  using assms by (simp add: basis_dim_def smod_nonneg_eq)

lemma idx_to_ai_component:
  "get_num_dimensions s \<noteq> 0 \<Longrightarrow>
   idx_to_ai (m_basis_inds s ! k) (get_num_dimensions s) = Some (basis_point s k, basis_dim s k)"
  by (simp add: idx_to_ai_Some basis_point_def basis_dim_def)

subsection \<open>Basis selector\<close>

lemma mask_scan:
  assumes "n \<le> int (length bs)" and "n \<le> 2147483647"
  shows "for_loop 0 n
           (\<lambda>i acc. do {
              m \<leftarrow> vec_get bs i;
              next_i \<leftarrow> int32_incr i;
              Some (if m then acc @ [i] else acc)
            }) []
          = Some (filter (\<lambda>i. bs ! nat i) (map int [0..<nat n]))"
proof (cases "0 \<le> n")
  case False
  then show ?thesis by (simp add: for_loop_done)
next
  case True
  let ?body = "\<lambda>i acc. do {
              m \<leftarrow> vec_get bs i;
              next_i \<leftarrow> int32_incr i;
              Some (if m then acc @ [i] else acc)
            }"
  have "\<exists>t. for_loop 0 n ?body [] = Some t \<and> t = filter (\<lambda>i. bs ! nat i) (map int [0..<nat n])"
  proof (rule for_loop_rule [where I = "\<lambda>k t. t = filter (\<lambda>i. bs ! nat i) (map int [0..<nat k])"])
    show "[] = filter (\<lambda>i. bs ! nat i) (map int [0..<nat 0])" by simp
    show "0 \<le> n" by (rule True)
    fix k t assume k: "0 \<le> k" "k < n" and t: "t = filter (\<lambda>i. bs ! nat i) (map int [0..<nat k])"
    have "nat (k + 1) = Suc (nat k)" using k by simp
    moreover have "int32_incr k = Some (k + 1)" using k assms(2) by (simp add: int32_incr_def)
    ultimately show "\<exists>t'. ?body k t = Some t' \<and> t' = filter (\<lambda>i. bs ! nat i) (map int [0..<nat (k + 1)])"
      using k t assms(1) by (simp add: vec_get_Some)
  qed
  then show ?thesis by simp
qed

lemma strict_sorted_ints: "sorted_wrt (<) (filter P (map int [0..<n]))"
  by (intro sorted_wrt_filter) (simp add: sorted_wrt_map)

lemma qsort_sorted_id: "sorted_wrt (<) v \<Longrightarrow> qsort v = v"
  by (simp add: qsort_def sorted_sort_id strict_sorted_imp_sorted)

lemma basis_inds_from_mask_eq:
  assumes "num_rows basis_mask * num_cols basis_mask \<le> int (length (matrix basis_mask))"
    and "num_rows basis_mask * num_cols basis_mask \<le> 2147483647"
  shows "basis_inds_from_mask basis_mask =
           Some (filter (\<lambda>i. matrix basis_mask ! nat i)
                   (map int [0..<nat (num_rows basis_mask * num_cols basis_mask)]))"
  using assms by (simp add: basis_inds_from_mask_def mask_scan qsort_sorted_id strict_sorted_ints)

text \<open>
  Claim C4. For a mask whose buffer holds its \<open>num_rows * num_cols\<close> entries and
  whose entries the 32-bit counter of the scan can count (at most \<open>2147483647\<close>, so
  that every flat index is an \<^verbatim>\<open>index_t\<close>), \<open>basis_inds_from_mask\<close> returns exactly
  the flat indices in \<open>[0, num_rows * num_cols)\<close> whose mask entry is true, as a
  strictly increasing sequence.
\<close>

theorem basis_inds_from_mask_exact:
  assumes "num_rows basis_mask * num_cols basis_mask \<le> int (length (matrix basis_mask))"
    and "num_rows basis_mask * num_cols basis_mask \<le> 2147483647"
  shows "\<exists>inds. basis_inds_from_mask basis_mask = Some inds
           \<and> (\<forall>i. i \<in> set inds \<longleftrightarrow>
                  0 \<le> i \<and> i < num_rows basis_mask * num_cols basis_mask \<and> matrix basis_mask ! nat i)
           \<and> sorted_wrt (<) inds"
proof -
  let ?n = "num_rows basis_mask * num_cols basis_mask"
  let ?inds = "filter (\<lambda>i. matrix basis_mask ! nat i) (map int [0..<nat ?n])"
  have mem: "i \<in> set ?inds \<longleftrightarrow> 0 \<le> i \<and> i < ?n \<and> matrix basis_mask ! nat i" for i
  proof -
    have "i \<in> int ` {0..<nat ?n} \<longleftrightarrow> 0 \<le> i \<and> i < ?n"
      by (auto simp: image_iff intro: bexI [of _ "nat i"])
    then show ?thesis by auto
  qed
  show ?thesis
    using basis_inds_from_mask_eq [OF assms] mem strict_sorted_ints by blast
qed

theorem basis_inds_from_mask_exact_witness:
  "(2::int) * 2 \<le> int (length [True, False, False, True])
   \<and> (2::int) * 2 \<le> 2147483647
   \<and> basis_inds_from_mask \<lparr>num_rows = 2, num_cols = 2, matrix = [True, False, False, True]\<rparr> = Some [0, 3]"
  using basis_inds_from_mask_exact [of "\<lparr>num_rows = 2, num_cols = 2, matrix = [True, False, False, True]\<rparr>"]
  by (simp add: basis_inds_from_mask_def for_loop.simps vec_get_def int32_incr_def qsort_def)

text \<open>
  On a mask of more than \<open>2147483647\<close> entries the scan does not return: its counter
  overflows.
\<close>

lemma for_loop_fails:
  assumes "i \<le> k" and "k < n"
    and ok: "\<And>j t. i \<le> j \<Longrightarrow> j < k \<Longrightarrow> \<exists>t'. body j t = Some t'"
    and bad: "\<And>t. body k t = None"
  shows "for_loop i n body st = None"
  using assms(1) ok
proof (induction "nat (k - i)" arbitrary: i st)
  case 0
  then have "i = k" by simp
  then show ?case using assms(2) bad by (simp add: for_loop.simps [of k])
next
  case (Suc m)
  then have lt: "i < k" by linarith
  then obtain t' where b: "body i st = Some t'" using Suc.prems(2) [of i st] by auto
  have "for_loop (i + 1) n body t' = None"
  proof (rule Suc.hyps(1))
    show "m = nat (k - (i + 1))" using Suc.hyps(2) by linarith
    show "i + 1 \<le> k" using lt by simp
    show "\<And>j t. i + 1 \<le> j \<Longrightarrow> j < k \<Longrightarrow> \<exists>t'. body j t = Some t'"
      using Suc.prems(2) by simp
  qed
  moreover have "i < n" using lt assms(2) by simp
  ultimately show ?case using for_loop_step [of i n body st t'] b by simp
qed

lemma basis_inds_from_mask_counter_overflow:
  assumes "num_rows basis_mask * num_cols basis_mask \<le> int (length (matrix basis_mask))"
    and "2147483647 < num_rows basis_mask * num_cols basis_mask"
  shows "basis_inds_from_mask basis_mask = None"
proof -
  let ?n = "num_rows basis_mask * num_cols basis_mask"
  let ?body = "\<lambda>i acc. do {
               m \<leftarrow> vec_get (matrix basis_mask) i;
               next_i \<leftarrow> int32_incr i;
               Some (if m then acc @ [i] else acc)
             }"
  have "for_loop 0 ?n ?body [] = None"
  proof (rule for_loop_fails [where k = 2147483647])
    show "(0::int) \<le> 2147483647" by simp
    show "2147483647 < ?n" by (rule assms(2))
    fix j :: int and t :: "int list" assume j: "0 \<le> j" "j < 2147483647"
    then show "\<exists>t'. ?body j t = Some t'"
      using assms by (simp add: vec_get_Some int32_incr_def)
  next
    fix t :: "int list"
    show "?body 2147483647 t = None"
      using assms by (simp add: vec_get_Some int32_incr_def)
  qed
  then show ?thesis by (simp add: basis_inds_from_mask_def)
qed

lemma set_set_insert: "set (set_insert x xs) = insert x (set xs)"
  by (induction xs) auto

lemma sorted_set_insert: "sorted_wrt (<) xs \<Longrightarrow> sorted_wrt (<) (set_insert x xs)"
  by (induction xs) (auto simp: set_set_insert)

lemma set_difference_filter:
  "sorted_wrt (<) xs \<Longrightarrow> sorted_wrt (<) ys \<Longrightarrow>
   set_difference xs ys = filter (\<lambda>x. x \<notin> set ys) xs"
proof (induction xs ys rule: set_difference.induct)
  case (1 ys)
  then show ?case by simp
next
  case (2 x xs)
  then show ?case by simp
next
  case (3 x xs y ys)
  show ?case
  proof (cases "x < y")
    case True
    then have "x \<notin> set (y # ys)" using "3.prems"(2) by auto
    then show ?thesis using True "3.IH"(1) "3.prems" by simp
  next
    case nlt: False
    show ?thesis
    proof (cases "y < x")
      case True
      have "\<forall>z\<in>set (x # xs). y \<noteq> z" using True "3.prems"(1) by auto
      then have "filter (\<lambda>z. z \<notin> set (y # ys)) (x # xs) = filter (\<lambda>z. z \<notin> set ys) (x # xs)"
        by (intro filter_cong) auto
      then show ?thesis using True nlt "3.IH"(2) "3.prems" by simp
    next
      case False
      then have eq: "x = y" using nlt by simp
      have "\<forall>z\<in>set xs. y \<noteq> z" using eq "3.prems"(1) by auto
      then have "filter (\<lambda>z. z \<notin> set (y # ys)) xs = filter (\<lambda>z. z \<notin> set ys) xs"
        by (intro filter_cong) auto
      moreover have "set_difference xs ys = filter (\<lambda>z. z \<notin> set ys) xs"
        using "3.IH"(3) nlt False "3.prems" by simp
      ultimately show ?thesis using eq by simp
    qed
  qed
qed

lemma get_basis_point_inds_eq:
  assumes D: "get_num_dimensions s \<noteq> 0"
  shows "\<exists>ps. get_basis_point_inds s basis_inds = Some ps \<and> sorted_wrt (<) ps
           \<and> set ps = (\<lambda>x. x sdiv get_num_dimensions s) ` set basis_inds"
proof -
  let ?D = "get_num_dimensions s"
  let ?body = "\<lambda>i st. do {
           x \<leftarrow> vec_get basis_inds i;
           ai \<leftarrow> idx_to_ai x ?D;
           Some (set_insert (fst ai) st)
         }"
  let ?I = "\<lambda>m ps. sorted_wrt (<) ps \<and> set ps = (\<lambda>x. x sdiv ?D) ` set (take (nat m) basis_inds)"
  have "\<exists>ps. for_loop 0 (int (length basis_inds)) ?body [] = Some ps \<and> ?I (int (length basis_inds)) ps"
  proof (rule for_loop_rule [where I = ?I])
    show "?I 0 []" by simp
    show "0 \<le> int (length basis_inds)" by simp
    fix m ps assume m: "0 \<le> m" "m < int (length basis_inds)" and I: "?I m ps"
    define k where "k = nat m"
    have k: "k < length basis_inds" "m = int k" "nat (m + 1) = Suc k" using m by (simp_all add: k_def)
    have "?body m ps = Some (set_insert (basis_inds ! k sdiv ?D) ps)"
      using k D by (simp add: vec_get_Some idx_to_ai_Some)
    moreover have "?I (m + 1) (set_insert (basis_inds ! k sdiv ?D) ps)"
      using I k by (simp add: sorted_set_insert set_set_insert take_Suc_conv_app_nth)
    ultimately show "\<exists>t'. ?body m ps = Some t' \<and> ?I (m + 1) t'" by blast
  qed
  then show ?thesis by (simp add: get_basis_point_inds_def Let_def)
qed

lemma all_inds_loop: "for_loop 0 N (\<lambda>i acc. Some (acc @ [i])) [] = Some (map int [0..<nat N])"
proof (cases "0 \<le> N")
  case False
  then show ?thesis by (simp add: for_loop_done)
next
  case True
  have "\<exists>t. for_loop 0 N (\<lambda>i acc. Some (acc @ [i])) [] = Some t \<and> t = map int [0..<nat N]"
  proof (rule for_loop_rule [where I = "\<lambda>m t. t = map int [0..<nat m]"])
    show "[] = map int [0..<nat 0]" by simp
    show "0 \<le> N" by (rule True)
    fix k t assume k: "0 \<le> k" "k < N" and t: "t = map int [0..<nat k]"
    have "nat (k + 1) = Suc (nat k)" using k by simp
    then show "\<exists>t'. Some (t @ [k]) = Some t' \<and> t' = map int [0..<nat (k + 1)]"
      using k t by simp
  qed
  then show ?thesis by simp
qed

lemma warnings_loop:
  "for_loop 0 (int (length unused))
     (\<lambda>i out. do { u \<leftarrow> vec_get unused i; Some (out @ [Warning_zero_components u]) }) []
   = Some (map Warning_zero_components unused)"
proof -
  let ?body = "\<lambda>i out. do { u \<leftarrow> vec_get unused i; Some (out @ [Warning_zero_components u]) }"
  have "\<exists>t. for_loop 0 (int (length unused)) ?body [] = Some t
          \<and> t = map Warning_zero_components (take (nat (int (length unused))) unused)"
  proof (rule for_loop_rule [where I = "\<lambda>m t. t = map Warning_zero_components (take (nat m) unused)"])
    show "[] = map Warning_zero_components (take (nat 0) unused)" by simp
    show "0 \<le> int (length unused)" by simp
    fix m t assume m: "0 \<le> m" "m < int (length unused)"
      and t: "t = map Warning_zero_components (take (nat m) unused)"
    define k where "k = nat m"
    have k: "k < length unused" "m = int k" "nat (m + 1) = Suc k" using m by (simp_all add: k_def)
    show "\<exists>t'. ?body m t = Some t' \<and> t' = map Warning_zero_components (take (nat (m + 1)) unused)"
      using k t by (simp add: vec_get_Some take_Suc_conv_app_nth)
  qed
  then show ?thesis by simp
qed

text \<open>
  Claim C9. For a mask whose buffer holds its entries, at most \<open>2147483647\<close> of
  them (the scan's 32-bit counter), and a state with a non-zero number of dimensions,
  \<open>set_basis_inds_from_mask\<close> returns the old state with
  \<open>m_basis_inds\<close> replaced by \<open>basis_inds_from_mask mask\<close> and every other field
  unchanged. The computation of the unused points only writes to the log: one warning
  for each point in \<open>[0, num_cols)\<close> that owns no active component, then one
  information line.
\<close>

theorem set_basis_inds_from_mask_frame:
  assumes mask: "num_rows basis_mask * num_cols basis_mask \<le> int (length (matrix basis_mask))"
    and count: "num_rows basis_mask * num_cols basis_mask \<le> 2147483647"
    and D: "get_num_dimensions s \<noteq> 0"
  shows "\<exists>inds. basis_inds_from_mask basis_mask = Some inds
           \<and> set_basis_inds_from_mask basis_mask s =
               Some (s\<lparr>m_basis_inds := inds\<rparr>,
                     map Warning_zero_components
                       (filter (\<lambda>p. \<forall>x\<in>set inds. x sdiv get_num_dimensions s \<noteq> p)
                          (map int [0..<nat (num_cols basis_mask)]))
                     @ [Info_using_components (int (length inds)) (num_rows basis_mask)
                          (num_cols basis_mask) (num_rows basis_mask * num_cols basis_mask)])"
proof -
  obtain inds where inds: "basis_inds_from_mask basis_mask = Some inds"
    using basis_inds_from_mask_eq [OF mask count] by blast
  let ?s' = "s\<lparr>m_basis_inds := inds\<rparr>"
  let ?all = "map int [0..<nat (num_cols basis_mask)]"
  have "get_num_dimensions ?s' \<noteq> 0" using D by simp
  from get_basis_point_inds_eq [OF this, of inds]
  obtain ps where ps: "get_basis_point_inds ?s' inds = Some ps" "sorted_wrt (<) ps"
    "set ps = (\<lambda>x. x sdiv get_num_dimensions s) ` set inds"
    by auto
  have "sorted_wrt (<) ?all" by (simp add: sorted_wrt_map)
  then have "set_difference ?all ps = filter (\<lambda>p. p \<notin> set ps) ?all"
    using ps(2) by (rule set_difference_filter)
  also have "\<dots> = filter (\<lambda>p. \<forall>x\<in>set inds. x sdiv get_num_dimensions s \<noteq> p) ?all"
    unfolding ps(3) by (intro filter_cong) (auto simp: image_iff)
  finally have unused: "set_difference ?all ps
      = filter (\<lambda>p. \<forall>x\<in>set inds. x sdiv get_num_dimensions s \<noteq> p) ?all" .
  show ?thesis
    using inds ps(1) unused
    by (simp add: set_basis_inds_from_mask_def all_inds_loop warnings_loop)
qed

theorem set_basis_inds_from_mask_frame_witness:
  "(2::int) * 2 \<le> int (length [False, False, False, True])
   \<and> (2::int) * 2 \<le> 2147483647
   \<and> get_num_dimensions (example_state :: int NystromD) \<noteq> 0
   \<and> set_basis_inds_from_mask \<lparr>num_rows = 2, num_cols = 2, matrix = [False, False, False, True]\<rparr>
        (example_state :: int NystromD)
      = Some (example_state\<lparr>m_basis_inds := [3]\<rparr>,
              [Warning_zero_components 0, Info_using_components 1 2 2 4])"
  using set_basis_inds_from_mask_frame
    [of "\<lparr>num_rows = 2, num_cols = 2, matrix = [False, False, False, True]\<rparr>"
        "example_state :: int NystromD"]
  by (simp add: basis_inds_from_mask_def for_loop.simps vec_get_def int32_incr_def qsort_def
        example_state_def
        signed_divide_int_def eval_nat_numeral)

subsection \<open>System builder: the matrices\<close>

text \<open>
  Two nested loops that write every cell \<open>(k, l)\<close> of a matrix leave exactly the matrix
  of these entries, whatever the storage held before.
\<close>

lemma fill_column:
  assumes n: "0 \<le> n" and l: "0 \<le> l" "l < c"
    and G: "num_rows (G :: 'a SGMatrix) = n" "length (matrix G) = nat (n * c)"
  shows "\<exists>G'. for_loop 0 n (\<lambda>k G. mat_set G k l (v k)) G = Some G'
           \<and> num_rows G' = n \<and> num_cols G' = num_cols G \<and> length (matrix G') = nat (n * c)
           \<and> (\<forall>k. 0 \<le> k \<and> k < n \<longrightarrow> matrix G' ! nat (l * n + k) = v k)
           \<and> (\<forall>l' k. 0 \<le> l' \<and> l' \<noteq> l \<and> 0 \<le> k \<and> k < n \<longrightarrow>
                  matrix G' ! nat (l' * n + k) = matrix G ! nat (l' * n + k))"
proof -
  let ?I = "\<lambda>m G'. num_rows G' = n \<and> num_cols G' = num_cols G \<and> length (matrix G') = nat (n * c)
           \<and> (\<forall>k. 0 \<le> k \<and> k < m \<longrightarrow> matrix G' ! nat (l * n + k) = v k)
           \<and> (\<forall>l' k. 0 \<le> l' \<and> l' \<noteq> l \<and> 0 \<le> k \<and> k < n \<longrightarrow>
                  matrix G' ! nat (l' * n + k) = matrix G ! nat (l' * n + k))"
  have "\<exists>G'. for_loop 0 n (\<lambda>k G. mat_set G k l (v k)) G = Some G' \<and> ?I n G'"
  proof (rule for_loop_rule [where I = ?I])
    show "?I 0 G" using G by auto
    show "0 \<le> n" by (rule n)
    fix m and H :: "'a SGMatrix" assume m: "0 \<le> m" "m < n" and I: "?I m H"
    have rows: "num_rows H = n" and cols: "num_cols H = num_cols G"
      and len: "length (matrix H) = nat (n * c)"
      and filled: "\<And>k. 0 \<le> k \<Longrightarrow> k < m \<Longrightarrow> matrix H ! nat (l * n + k) = v k"
      and other: "\<And>l' k. 0 \<le> l' \<Longrightarrow> l' \<noteq> l \<Longrightarrow> 0 \<le> k \<Longrightarrow> k < n \<Longrightarrow>
                    matrix H ! nat (l' * n + k) = matrix G ! nat (l' * n + k)"
      using I by simp_all
    have rng: "0 \<le> l * n + m" "l * n + m < n * c"
      using flat_index_range [of m n l c] m l by simp_all
    let ?H' = "H\<lparr>matrix := (matrix H)[nat (l * n + m) := v m]\<rparr>"
    have A: "mat_set H m l (v m) = Some ?H'"
      using rng rows len by (simp add: mat_set_Some)
    have B: "?I (m + 1) ?H'"
    proof (intro conjI allI impI)
      show "num_rows ?H' = n" using rows by simp
      show "num_cols ?H' = num_cols G" using cols by simp
      show "length (matrix ?H') = nat (n * c)" using len by simp
    next
      fix k assume k: "0 \<le> k \<and> k < m + 1"
      show "matrix ?H' ! nat (l * n + k) = v k"
      proof (cases "k = m")
        case True
        then show ?thesis using rng len by simp
      next
        case False
        moreover have "0 \<le> l * n" using l n by simp
        ultimately have "nat (l * n + k) \<noteq> nat (l * n + m)" using k m by linarith
        then show ?thesis using filled [of k] k False by simp
      qed
    next
      fix l' k assume a: "0 \<le> l' \<and> l' \<noteq> l \<and> 0 \<le> k \<and> k < n"
      then have "l' * n + k \<noteq> l * n + m"
        using flat_index_inj [of k n m l' l] m by auto
      moreover have "0 \<le> l' * n + k" using a n by simp
      ultimately have "nat (l' * n + k) \<noteq> nat (l * n + m)" using rng(1) by linarith
      then show "matrix ?H' ! nat (l' * n + k) = matrix G ! nat (l' * n + k)"
        using other [of l' k] a by simp
    qed
    show "\<exists>t'. mat_set H m l (v m) = Some t' \<and> ?I (m + 1) t'"
      by (rule exI [of _ ?H']) (rule conjI [OF A B])
  qed
  then show ?thesis by blast
qed

lemma fill_matrix:
  assumes n: "0 \<le> n"
    and G0: "num_rows G0 = n" "num_cols G0 = c" "length (matrix G0) = nat (n * c)"
  shows "for_loop 0 c (\<lambda>l G. for_loop 0 n (\<lambda>k G. mat_set G k l (v k l)) G) (G0 :: 'a SGMatrix)
           = Some (matrix_of_entries n c v)"
proof (cases "0 \<le> c")
  case False
  then have "n * c \<le> 0" using n by (simp add: mult_le_0_iff)
  then have "matrix G0 = []" using G0(3) by simp
  then have "G0 = matrix_of_entries n c v"
    using G0(1,2) \<open>n * c \<le> 0\<close> by (simp add: matrix_of_entries_def)
  then show ?thesis using False by (simp add: for_loop_done)
next
  case c: True
  let ?J = "\<lambda>m G. num_rows G = n \<and> num_cols G = c \<and> length (matrix G) = nat (n * c)
           \<and> (\<forall>l k. 0 \<le> l \<and> l < m \<and> 0 \<le> k \<and> k < n \<longrightarrow> matrix G ! nat (l * n + k) = v k l)"
  have "\<exists>G. for_loop 0 c (\<lambda>l G. for_loop 0 n (\<lambda>k G. mat_set G k l (v k l)) G) G0 = Some G \<and> ?J c G"
  proof (rule for_loop_rule [where I = ?J])
    show "?J 0 G0" using G0 by auto
    show "0 \<le> c" by (rule c)
    fix m and H :: "'a SGMatrix" assume m: "0 \<le> m" "m < c" and J: "?J m H"
    have rows: "num_rows H = n" and cols: "num_cols H = c"
      and len: "length (matrix H) = nat (n * c)"
      and filled: "\<And>l k. 0 \<le> l \<Longrightarrow> l < m \<Longrightarrow> 0 \<le> k \<Longrightarrow> k < n \<Longrightarrow> matrix H ! nat (l * n + k) = v k l"
      using J by simp_all
    from fill_column [OF n m rows len, of "\<lambda>k. v k m"]
    obtain H' where H': "for_loop 0 n (\<lambda>k G. mat_set G k m (v k m)) H = Some H'"
      and rows': "num_rows H' = n" and cols': "num_cols H' = num_cols H"
      and len': "length (matrix H') = nat (n * c)"
      and new: "\<And>k. 0 \<le> k \<Longrightarrow> k < n \<Longrightarrow> matrix H' ! nat (m * n + k) = v k m"
      and old: "\<And>l' k. 0 \<le> l' \<Longrightarrow> l' \<noteq> m \<Longrightarrow> 0 \<le> k \<Longrightarrow> k < n \<Longrightarrow>
                  matrix H' ! nat (l' * n + k) = matrix H ! nat (l' * n + k)"
      by blast
    have "matrix H' ! nat (l * n + k) = v k l" if "0 \<le> l" "l < m + 1" "0 \<le> k" "k < n" for l k
    proof (cases "l = m")
      case True
      then show ?thesis using new that by simp
    next
      case False
      then show ?thesis using old [of l k] filled [of l k] that by simp
    qed
    then have "?J (m + 1) H'" using rows' cols' cols len' by simp
    then show "\<exists>t'. for_loop 0 n (\<lambda>k G. mat_set G k m (v k m)) H = Some t' \<and> ?J (m + 1) t'"
      using H' by blast
  qed
  then obtain G where G: "for_loop 0 c (\<lambda>l G. for_loop 0 n (\<lambda>k G. mat_set G k l (v k l)) G) G0 = Some G"
    and rows: "num_rows G = n" and cols: "num_cols G = c"
    and len: "length (matrix G) = nat (n * c)"
    and cells: "\<And>l k. 0 \<le> l \<Longrightarrow> l < c \<Longrightarrow> 0 \<le> k \<Longrightarrow> k < n \<Longrightarrow> matrix G ! nat (l * n + k) = v k l"
    by auto
  have "matrix G = map (\<lambda>p. v (int p mod n) (int p div n)) [0..<nat (n * c)]"
  proof (rule nth_equalityI)
    show "length (matrix G) = length (map (\<lambda>p. v (int p mod n) (int p div n)) [0..<nat (n * c)])"
      using len by simp
    fix p assume "p < length (matrix G)"
    then have plt: "p < nat (n * c)" using len by simp
    then have p: "int p < n * c" by linarith
    then have npos: "0 < n" using n c by (cases "n = 0") auto
    have 1: "0 \<le> int p mod n" "int p mod n < n" using npos by simp_all
    have 2: "0 \<le> int p div n" using npos by (simp add: pos_imp_zdiv_nonneg_iff)
    have 3: "int p div n < c" using p npos by (intro int_div_less_bound) (simp_all add: mult.commute)
    have "matrix G ! nat (int p div n * n + int p mod n) = v (int p mod n) (int p div n)"
      using cells [OF 2 3 1] .
    then show "matrix G ! p = map (\<lambda>p. v (int p mod n) (int p div n)) [0..<nat (n * c)] ! p"
      using plt by simp
  qed
  then have "G = matrix_of_entries n c v"
    using rows cols by (simp add: matrix_of_entries_def)
  then show ?thesis using G by simp
qed

lemma matrix_of_entries_get:
  assumes "0 \<le> k" "k < n" "0 \<le> l" "l < c"
  shows "mat_get (matrix_of_entries n c v) k l = Some (v k l)"
proof -
  have rng: "0 \<le> l * n + k" "l * n + k < n * c"
    using flat_index_range [of k n l c] assms by simp_all
  then have "nat (l * n + k) < nat (n * c)" by linarith
  moreover have "(l * n + k) mod n = k" "(l * n + k) div n = l" using assms by simp_all
  ultimately show ?thesis
    using rng by (simp add: mat_get_def vec_get_def matrix_of_entries_def)
qed

lemma SGMatrix_new_shape:
  "num_rows (SGMatrix_new u r c) = r" "num_cols (SGMatrix_new u r c) = c"
  "length (matrix (SGMatrix_new u r c)) = nat (r * c)"
  by (simp_all add: SGMatrix_new_def)

lemma compute_G_mm_eq:
  assumes D: "get_num_dimensions s \<noteq> 0"
  shows "compute_G_mm u s =
           Some (matrix_of_entries (get_system_size s) (get_system_size s) (G_mm_entry s))"
proof -
  let ?D = "get_num_dimensions s"
  let ?inds = "m_basis_inds s"
  let ?n = "int (length ?inds)"
  let ?inner = "\<lambda>a i idx_k G_mm. do {
                  y \<leftarrow> vec_get (m_basis_inds s) idx_k;
                  bj \<leftarrow> idx_to_ai y ?D;
                  let b = fst bj; j = snd bj in
                  mat_set G_mm idx_k (idx_l :: int) (dx_dy_component (m_kernel s) b a j i)
                }"
  have ai: "idx_to_ai (?inds ! k) ?D = Some (basis_point s k, basis_dim s k)" for k
    using D by (simp add: idx_to_ai_component)
  have inner: "(do {
                  y \<leftarrow> vec_get (m_basis_inds s) k;
                  bj \<leftarrow> idx_to_ai y ?D;
                  let b = fst bj; j = snd bj in
                  mat_set G k l (dx_dy_component (m_kernel s) b (basis_point s (nat l)) j (basis_dim s (nat l)))
                }) = mat_set G k l (G_mm_entry s k l)"
    if "0 \<le> k" "k < ?n" for k l and G :: "'a SGMatrix"
    using that ai [of "nat k"] by (simp add: vec_get_Some Let_def G_mm_entry_def)
  have outer: "(do {
             x \<leftarrow> vec_get (m_basis_inds s) l;
             ai \<leftarrow> idx_to_ai x ?D;
             let a = fst ai; i = snd ai in
             for_loop 0 ?n
               (\<lambda>idx_k G_mm. do {
                  y \<leftarrow> vec_get (m_basis_inds s) idx_k;
                  bj \<leftarrow> idx_to_ai y ?D;
                  let b = fst bj; j = snd bj in
                  mat_set G_mm idx_k l (dx_dy_component (m_kernel s) b a j i)
                }) G
           }) = for_loop 0 ?n (\<lambda>k G. mat_set G k l (G_mm_entry s k l)) G"
    if l: "0 \<le> l" "l < ?n" for l and G :: "'a SGMatrix"
  proof -
    have "for_loop 0 ?n
               (\<lambda>idx_k G_mm. do {
                  y \<leftarrow> vec_get (m_basis_inds s) idx_k;
                  bj \<leftarrow> idx_to_ai y ?D;
                  let b = fst bj; j = snd bj in
                  mat_set G_mm idx_k l (dx_dy_component (m_kernel s) b (basis_point s (nat l)) j (basis_dim s (nat l)))
                }) G = for_loop 0 ?n (\<lambda>k G. mat_set G k l (G_mm_entry s k l)) G"
      by (rule for_loop_cong_range) (rule inner)
    then show ?thesis
      using l ai [of "nat l"] by (simp add: vec_get_Some Let_def)
  qed
  have "compute_G_mm u s =
          for_loop 0 ?n (\<lambda>l G. for_loop 0 ?n (\<lambda>k G. mat_set G k l (G_mm_entry s k l)) G)
            (SGMatrix_new u ?n ?n)"
    unfolding compute_G_mm_def get_system_size_def Let_def
    by (rule for_loop_cong_range) (rule outer [unfolded Let_def])
  also have "\<dots> = Some (matrix_of_entries ?n ?n (G_mm_entry s))"
    by (rule fill_matrix) (simp_all add: SGMatrix_new_shape)
  finally show ?thesis by (simp add: get_system_size_def)
qed







text \<open>
  Claim C5. If the kernel service is symmetric, that is
  \<open>dx_dy_component(b, a, j, i) = dx_dy_component(a, b, i, j)\<close> for all arguments, then the
  matrix \<open>compute_G_mm\<close> returns is symmetric: its entries \<open>(k, l)\<close> and \<open>(l, k)\<close> are
  equal for all \<open>k\<close>, \<open>l\<close> in \<open>[0, system_size)\<close>.
\<close>

theorem compute_G_mm_symmetric:
  assumes D: "get_num_dimensions s \<noteq> 0"
    and sym: "\<forall>a b i j. dx_dy_component (m_kernel s) b a j i = dx_dy_component (m_kernel s) a b i j"
  shows "\<exists>G_mm. compute_G_mm u s = Some G_mm
           \<and> num_rows G_mm = get_system_size s \<and> num_cols G_mm = get_system_size s
           \<and> (\<forall>k l. 0 \<le> k \<and> k < get_system_size s \<and> 0 \<le> l \<and> l < get_system_size s \<longrightarrow>
                  (\<exists>x. mat_get G_mm k l = Some x \<and> mat_get G_mm l k = Some x))"
proof -
  let ?n = "get_system_size s"
  let ?G_mm = "matrix_of_entries ?n ?n (G_mm_entry s)"
  have "\<exists>x. mat_get ?G_mm k l = Some x \<and> mat_get ?G_mm l k = Some x"
    if k: "0 \<le> k" "k < ?n" and l: "0 \<le> l" "l < ?n" for k l
  proof -
    have "mat_get ?G_mm k l = Some (G_mm_entry s k l)"
      using k l by (rule matrix_of_entries_get)
    moreover have "mat_get ?G_mm l k = Some (G_mm_entry s l k)"
      using l k by (rule matrix_of_entries_get)
    moreover have "G_mm_entry s k l = G_mm_entry s l k"
      using sym by (simp add: G_mm_entry_def)
    ultimately show ?thesis by simp
  qed
  then show ?thesis
    using compute_G_mm_eq [OF D, of u] by (simp add: matrix_of_entries_def)
qed

theorem compute_G_mm_symmetric_witness:
  "get_num_dimensions (example_state :: int NystromD) \<noteq> 0
   \<and> (\<forall>a b i j. dx_dy_component (m_kernel (example_state :: int NystromD)) b a j i
                  = dx_dy_component (m_kernel (example_state :: int NystromD)) a b i j)
   \<and> compute_G_mm (\<lambda>_. 9) (example_state :: int NystromD)
        = Some \<lparr>num_rows = 3, num_cols = 3, matrix = [1, 1, 1, 1, 2, 2, 1, 2, 3]\<rparr>"
  using compute_G_mm_symmetric [of "example_state :: int NystromD" "\<lambda>_. 9"]
  by (simp add: compute_G_mm_def eval_simps mat_eval_simps mult.commute)

subsection \<open>System builder: the right-hand side\<close>

text \<open>
  Claim C1. \<open>compute_h\<close> is claimed to return a vector of length \<open>get_system_size\<close>
  whose entry \<open>k\<close> is \<open>h_claimed s k\<close>. The function sizes the vector and bounds its
  loops by \<open>N_basis * D\<close>, and adds a term only for the pairs \<open>(b, j)\<close> that are active
  basis components. On the explicit basis of one point for two data points it returns
  \<open>1/2\<close> where the claimed sum over both data points is \<open>1\<close>; on the partial mask,
  where the system size is \<open>1\<close> and \<open>N_basis * D\<close> is \<open>2\<close>, it reads \<open>m_basis_inds\<close>
  past its end.
\<close>

theorem compute_h_diverges:
  "compute_h explicit_basis_state = Some [1 / 2]
   \<and> get_system_size explicit_basis_state = 1
   \<and> h_claimed explicit_basis_state 0 = 1
   \<and> get_system_size partial_mask_state = 1
   \<and> compute_h partial_mask_state = None"
  by (simp add: compute_h_def h_claimed_def explicit_basis_state_def partial_mask_state_def
        lsum_def basis_point_def basis_dim_def vec_add_at_def example_kernel_def
        for_loop.simps vec_get_def vec_set_def idx_to_ai_def signed_divide_int_def
        signed_modulo_int_def get_system_size_def Let_def SGVector_zero_def eval_nat_numeral)

subsection \<open>Evaluator: log-density\<close>

lemma lsum_Suc: "lsum f (Suc n) = lsum f n + f n"
  by (simp add: lsum_def)

lemma lsum_0: "lsum f 0 = 0"
  by (simp add: lsum_def)

lemma lsum_eq_sum: "lsum f n = (\<Sum>k<n. (f k :: 'a::comm_monoid_add))"
  by (induction n) (simp_all add: lsum_0 lsum_Suc add.commute)

text \<open>
  Claim C8. \<open>log_pdf query\<close> is the sum, over the active basis components
  \<open>k = 0, \<dots>, system_size - 1\<close> in this order, of \<open>beta[k]\<close> times
  \<open>dx_component\<close> at the component's basis point, the query index and the
  component's dimension: one term per active component. It holds whenever the number
  of dimensions is not zero and \<open>beta\<close> has an entry for every active component; by
  \<open>lsum_eq_sum\<close> the left-to-right sum is the sum \<open>\<Sum>k<system_size\<close> in exact
  arithmetic.
\<close>

theorem log_pdf_sum:
  assumes D: "get_num_dimensions s \<noteq> 0"
    and beta: "length (m_basis_inds s) \<le> length (m_beta s)"
  shows "log_pdf s idx_test =
           Some (lsum (\<lambda>k. m_beta s ! k *
                    dx_component (m_kernel s) (basis_point s k) idx_test (basis_dim s k))
                  (length (m_basis_inds s)))"
proof -
  let ?f = "\<lambda>k. m_beta s ! k * dx_component (m_kernel s) (basis_point s k) idx_test (basis_dim s k)"
  let ?n = "int (length (m_basis_inds s))"
  let ?body = "(\<lambda>idx_l beta_sum. do {
             x \<leftarrow> vec_get (m_basis_inds s) idx_l;
             ai \<leftarrow> idx_to_ai x (get_num_dimensions s);
             let a = fst ai; i = snd ai;
                 grad_x_xa = dx_component (m_kernel s) a idx_test i in
             do {
               beta_l \<leftarrow> vec_get (m_beta s) idx_l;
               Some (beta_sum + beta_l * grad_x_xa)
             }
           })"
  have "\<exists>t. for_loop 0 ?n ?body 0 = Some t \<and> (t = lsum ?f (nat ?n))"
  proof (rule for_loop_rule [where I = "\<lambda>k t. t = lsum ?f (nat k)"])
    show "0 = lsum ?f (nat 0)" by (simp add: lsum_0)
    show "0 \<le> ?n" by simp
    fix k t assume k: "0 \<le> k" "k < ?n" and t: "t = lsum ?f (nat k)"
    have "nat (k + 1) = Suc (nat k)" using k by simp
    then show "\<exists>t'. ?body k t = Some t' \<and> t' = lsum ?f (nat (k + 1))"
      using k t beta D
      by (simp add: vec_get_Some idx_to_ai_Some lsum_Suc basis_point_def basis_dim_def)
  qed
  then show ?thesis
    by (simp add: log_pdf_def get_system_size_def)
qed

theorem log_pdf_sum_witness:
  "get_num_dimensions (example_state :: int NystromD) \<noteq> 0
   \<and> length (m_basis_inds (example_state :: int NystromD)) \<le> length (m_beta (example_state :: int NystromD))
   \<and> log_pdf (example_state :: int NystromD) 1 = Some 59"
  using log_pdf_sum [of "example_state :: int NystromD" 1]
  by (simp add: example_state_def example_kernel_def lsum_def basis_point_def basis_dim_def
        signed_divide_int_def signed_modulo_int_def)

subsection \<open>Evaluator: gradient\<close>

text \<open>
  Claim C10. For a state with a positive number of dimensions, non-negative basis
  indices, a \<open>beta\<close> entry for every active component and Hessian rows of the kernel
  service with at least \<open>D\<close> entries, \<open>grad query\<close> returns a vector of length \<open>D\<close>
  whose entry \<open>i\<close> is zero for every dimension \<open>i\<close> that is the dimension of no active
  basis component.
\<close>

theorem grad_inactive_dims_zero:
  assumes D: "0 < get_num_dimensions s"
    and nonneg: "\<forall>x\<in>set (m_basis_inds s). 0 \<le> x"
    and beta: "length (m_basis_inds s) \<le> length (m_beta s)"
    and row: "\<forall>a b i. get_num_dimensions s \<le> int (length (dx_i_dx_j_component (m_kernel s) a b i))"
  shows "\<exists>g. grad s idx_test = Some g
           \<and> length g = nat (get_num_dimensions s)
           \<and> (\<forall>i. 0 \<le> i \<and> i < get_num_dimensions s
                  \<and> (\<forall>k<length (m_basis_inds s). basis_dim s k \<noteq> i)
                  \<longrightarrow> g ! nat i = 0)"
proof -
  let ?D = "get_num_dimensions s"
  let ?inds = "m_basis_inds s"
  let ?n = "int (length ?inds)"
  define P where "P g \<longleftrightarrow> length g = nat ?D
       \<and> (\<forall>i. 0 \<le> i \<and> i < ?D \<and> (\<forall>k<length ?inds. basis_dim s k \<noteq> i) \<longrightarrow> g ! nat i = 0)"
    for g :: "'a list"
  let ?inner = "\<lambda>a i left_arg_hessian idx_k beta_grad_sum. do {
                  y \<leftarrow> vec_get (m_basis_inds s) idx_k;
                  bj \<leftarrow> idx_to_ai y ?D;
                  let b = fst bj in
                  if a \<noteq> b then Some beta_grad_sum
                  else
                    let j = snd bj in
                    do {
                      hess_j \<leftarrow> vec_get left_arg_hessian j;
                      beta_k \<leftarrow> vec_get (m_beta s) idx_k;
                      vec_sub_at beta_grad_sum i (hess_j * beta_k)
                    }
                }"
  let ?outer = "\<lambda>idx_l beta_grad_sum. do {
             x \<leftarrow> vec_get (m_basis_inds s) idx_l;
             ai \<leftarrow> idx_to_ai x ?D;
             let a = fst ai; i = snd ai;
                 left_arg_hessian = dx_i_dx_j_component (m_kernel s) a idx_test i in
             for_loop 0 ?n (?inner a i left_arg_hessian) beta_grad_sum
           }"
  have upd: "P (g[nat (basis_dim s l) := x])" if "P g" "l < length ?inds" for g l x
  proof -
    have rng: "0 \<le> basis_dim s l" using basis_dim_range [of s l] D nonneg that(2) by simp
    have "(g[nat (basis_dim s l) := x]) ! nat i = 0"
      if i: "0 \<le> i" "i < ?D" "\<forall>k<length ?inds. basis_dim s k \<noteq> i" for i
    proof -
      have "basis_dim s l \<noteq> i" using i(3) \<open>l < length ?inds\<close> by simp
      then have "nat (basis_dim s l) \<noteq> nat i" using rng i(1) by linarith
      moreover have "g ! nat i = 0" using \<open>P g\<close> i unfolding P_def by simp
      ultimately show ?thesis by simp
    qed
    then show ?thesis using \<open>P g\<close> unfolding P_def by simp
  qed
  have inner: "\<exists>t. for_loop 0 ?n (?inner (basis_point s l) (basis_dim s l) r) g = Some t \<and> P t"
    if g: "P g" and l: "l < length ?inds" and r: "?D \<le> int (length r)" for g l r
  proof (rule for_loop_preserves [where P = P, OF g])
    fix m t assume m: "0 \<le> m" "m < ?n" and t: "P t"
    define k where "k = nat m"
    have k: "k < length ?inds" "m = int k" using m by (simp_all add: k_def)
    have ai: "idx_to_ai (?inds ! k) ?D = Some (basis_point s k, basis_dim s k)"
      using D by (simp add: idx_to_ai_component)
    have rk: "0 \<le> basis_dim s k" "basis_dim s k < ?D"
      using basis_dim_range [of s k] D nonneg k(1) by simp_all
    have rl: "0 \<le> basis_dim s l" "basis_dim s l < ?D"
      using basis_dim_range [of s l] D nonneg l by simp_all
    have len: "length t = nat ?D" using t unfolding P_def by simp
    show "\<exists>t'. ?inner (basis_point s l) (basis_dim s l) r m t = Some t' \<and> P t'"
    proof (cases "basis_point s l = basis_point s k")
      case False
      then show ?thesis using k ai t by (simp add: vec_get_Some Let_def)
    next
      case True
      have "?inner (basis_point s l) (basis_dim s l) r m t
              = Some (t[nat (basis_dim s l) :=
                   t ! nat (basis_dim s l) - r ! nat (basis_dim s k) * m_beta s ! k])"
        using k ai True beta rk rl len r by (simp add: vec_get_Some vec_sub_at_Some Let_def)
      then show ?thesis using upd [OF t l] by simp
    qed
  qed
  have "\<exists>t. for_loop 0 ?n ?outer (SGVector_zero ?D) = Some t \<and> P t"
  proof (rule for_loop_preserves [where P = P])
    show "P (SGVector_zero ?D)" by (simp add: P_def SGVector_zero_def)
    fix m t assume m: "0 \<le> m" "m < ?n" and t: "P t"
    define l where "l = nat m"
    have l: "l < length ?inds" "m = int l" using m by (simp_all add: l_def)
    have ai: "idx_to_ai (?inds ! l) ?D = Some (basis_point s l, basis_dim s l)"
      using D by (simp add: idx_to_ai_component)
    have "?outer m t = for_loop 0 ?n (?inner (basis_point s l) (basis_dim s l)
              (dx_i_dx_j_component (m_kernel s) (basis_point s l) idx_test (basis_dim s l))) t"
      using l ai by (simp add: vec_get_Some Let_def cong: if_cong)
    then show "\<exists>t'. ?outer m t = Some t' \<and> P t'"
      using inner [OF t l(1), of "dx_i_dx_j_component (m_kernel s) (basis_point s l) idx_test (basis_dim s l)"] row
      by simp
  qed
  then show ?thesis
    by (simp add: grad_def get_system_size_def Let_def P_def)
qed

theorem grad_inactive_dims_zero_witness:
  "\<exists>g. grad (example_state\<lparr>m_basis_inds := [1, 3], m_beta := [2, 3]\<rparr> :: int NystromD) 1 = Some g
     \<and> length g = 2 \<and> g ! 0 = 0 \<and> g ! 1 \<noteq> 0"
  using grad_inactive_dims_zero [of "example_state\<lparr>m_basis_inds := [1, 3], m_beta := [2, 3]\<rparr> :: int NystromD" 1]
  by (simp add: grad_def vec_sub_at_def eval_simps)

subsection \<open>Evaluator: the beta slice of a basis point\<close>

text \<open>
  Claim C7. For a state with a positive number of dimensions, non-negative and
  pairwise distinct basis indices and a \<open>beta\<close> entry for every active component,
  \<open>get_beta_for_basis_point a\<close> returns a vector of length \<open>D\<close> whose entry at
  the dimension of every active component \<open>k\<close> of point \<open>a\<close> is \<open>beta[k]\<close>, and
  whose entry is zero at every dimension \<open>j\<close> for which point \<open>a\<close> has no active
  component.
\<close>

theorem get_beta_for_basis_point_slice:
  assumes D: "0 < get_num_dimensions s"
    and nonneg: "\<forall>x\<in>set (m_basis_inds s). 0 \<le> x"
    and dist: "distinct (m_basis_inds s)"
    and beta: "length (m_basis_inds s) \<le> length (m_beta s)"
  shows "\<exists>beta_a. get_beta_for_basis_point s a = Some beta_a
           \<and> length beta_a = nat (get_num_dimensions s)
           \<and> (\<forall>k<length (m_basis_inds s). basis_point s k = a \<longrightarrow>
                  beta_a ! nat (basis_dim s k) = m_beta s ! k)
           \<and> (\<forall>j. 0 \<le> j \<and> j < get_num_dimensions s
                  \<and> (\<forall>k<length (m_basis_inds s). \<not> (basis_point s k = a \<and> basis_dim s k = j))
                  \<longrightarrow> beta_a ! nat j = 0)"
proof -
  let ?D = "get_num_dimensions s"
  let ?inds = "m_basis_inds s"
  let ?n = "int (length ?inds)"
  let ?body = "\<lambda>idx_k beta_a. do {
             y \<leftarrow> vec_get (m_basis_inds s) idx_k;
             bj \<leftarrow> idx_to_ai y ?D;
             let b = fst bj; j = snd bj in
             if a \<noteq> b then Some beta_a
             else do {
               beta_k \<leftarrow> vec_get (m_beta s) idx_k;
               vec_set beta_a j beta_k
             }
           }"
  let ?I = "\<lambda>m v. length v = nat ?D
       \<and> (\<forall>k<nat m. basis_point s k = a \<longrightarrow> v ! nat (basis_dim s k) = m_beta s ! k)
       \<and> (\<forall>j. 0 \<le> j \<and> j < ?D \<and> (\<forall>k<nat m. \<not> (basis_point s k = a \<and> basis_dim s k = j))
              \<longrightarrow> v ! nat j = 0)"
  have "\<exists>t. for_loop 0 ?n ?body (SGVector_zero ?D) = Some t \<and> ?I ?n t"
  proof (rule for_loop_rule [where I = ?I])
    show "?I 0 (SGVector_zero ?D)" by (simp add: SGVector_zero_def)
    show "0 \<le> ?n" by simp
    fix m v assume m: "0 \<le> m" "m < ?n" and I: "?I m v"
    define k where "k = nat m"
    have k: "k < length ?inds" "m = int k" "nat (m + 1) = Suc k" using m by (simp_all add: k_def)
    have rng: "0 \<le> basis_dim s k" "basis_dim s k < ?D"
      using basis_dim_range [of s k] D nonneg k(1) by simp_all
    have ai: "idx_to_ai (?inds ! k) ?D = Some (basis_point s k, basis_dim s k)"
      using D by (simp add: idx_to_ai_component)
    have len: "length v = nat ?D" using I by simp
    have I1: "v ! nat (basis_dim s k') = m_beta s ! k'"
      if "k' < k" "basis_point s k' = a" for k'
      using I that k(2) by simp
    have I2: "v ! nat j = 0"
      if "0 \<le> j" "j < ?D" "\<forall>k'<k. \<not> (basis_point s k' = a \<and> basis_dim s k' = j)" for j
      using I that k(2) by simp
    show "\<exists>t'. ?body m v = Some t' \<and> ?I (m + 1) t'"
    proof (cases "a = basis_point s k")
      case False
      have A: "?body m v = Some v"
        using k ai False by (simp add: vec_get_Some)
      have B: "?I (m + 1) v"
        unfolding k(3)
      proof (intro conjI allI impI)
        show "length v = nat ?D" by (rule len)
      next
        fix k' assume "k' < Suc k" "basis_point s k' = a"
        then have "k' < k" using False by (cases "k' = k") auto
        then show "v ! nat (basis_dim s k') = m_beta s ! k'"
          using \<open>basis_point s k' = a\<close> by (rule I1)
      next
        fix j assume j: "0 \<le> j \<and> j < ?D
            \<and> (\<forall>k'<Suc k. \<not> (basis_point s k' = a \<and> basis_dim s k' = j))"
        then have "\<forall>k'<k. \<not> (basis_point s k' = a \<and> basis_dim s k' = j)"
          by simp
        then show "v ! nat j = 0" using I2 j by simp
      qed
      show ?thesis by (rule exI [of _ v]) (rule conjI [OF A B])
    next
      case True
      let ?v' = "v[nat (basis_dim s k) := m_beta s ! k]"
      have A: "?body m v = Some ?v'"
        using k ai True beta rng len by (simp add: vec_get_Some vec_set_Some)
      have B: "?I (m + 1) ?v'"
        unfolding k(3)
      proof (intro conjI allI impI)
        show "length ?v' = nat ?D" using len by simp
      next
        fix k' assume k': "k' < Suc k" and pt: "basis_point s k' = a"
        show "?v' ! nat (basis_dim s k') = m_beta s ! k'"
        proof (cases "k' = k")
          case True
          then show ?thesis using rng len by simp
        next
          case False
          then have lt: "k' < k" using k' by simp
          have "basis_dim s k' \<noteq> basis_dim s k"
          proof
            assume eq: "basis_dim s k' = basis_dim s k"
            have "basis_point s k' = basis_point s k" using pt True by simp
            moreover have "k' < length ?inds" using lt k(1) by simp
            ultimately have "k' = k" using eq k(1) dist by (blast intro: component_inj)
            then show False using False by simp
          qed
          moreover have "0 \<le> basis_dim s k'"
            using basis_dim_range [of s k'] D nonneg lt k(1) by simp
          ultimately have "nat (basis_dim s k') \<noteq> nat (basis_dim s k)" using rng by simp
          then show ?thesis using I1 [OF lt pt] by simp
        qed
      next
        fix j assume j: "0 \<le> j \<and> j < ?D
            \<and> (\<forall>k'<Suc k. \<not> (basis_point s k' = a \<and> basis_dim s k' = j))"
        then have "j \<noteq> basis_dim s k" using True by auto
        moreover have j0: "0 \<le> j" "j < ?D" using j by simp_all
        ultimately have "nat j \<noteq> nat (basis_dim s k)" using rng by linarith
        moreover have "\<forall>k'<k. \<not> (basis_point s k' = a \<and> basis_dim s k' = j)"
          using j by simp
        then have "v ! nat j = 0" using j0 by (intro I2)
        ultimately show "?v' ! nat j = 0" by simp
      qed
      show ?thesis by (rule exI [of _ ?v']) (rule conjI [OF A B])
    qed
  qed
  then show ?thesis
    by (simp add: get_beta_for_basis_point_def get_system_size_def Let_def)
qed

theorem get_beta_for_basis_point_slice_witness:
  "get_beta_for_basis_point (example_state :: int NystromD) 0 = Some [2, 3]
   \<and> get_beta_for_basis_point (example_state :: int NystromD) 1 = Some [0, 5]"
  using get_beta_for_basis_point_slice [of "example_state :: int NystromD" 1]
  by (simp add: get_beta_for_basis_point_def eval_simps)

lemma get_beta_for_basis_point_total:
  assumes D: "0 < get_num_dimensions s"
    and nonneg: "\<forall>x\<in>set (m_basis_inds s). 0 \<le> x"
    and beta: "length (m_basis_inds s) \<le> length (m_beta s)"
  shows "\<exists>beta_a. get_beta_for_basis_point s a = Some beta_a"
proof -
  let ?D = "get_num_dimensions s"
  let ?inds = "m_basis_inds s"
  let ?body = "\<lambda>idx_k beta_a. do {
             y \<leftarrow> vec_get (m_basis_inds s) idx_k;
             bj \<leftarrow> idx_to_ai y ?D;
             let b = fst bj; j = snd bj in
             if a \<noteq> b then Some beta_a
             else do {
               beta_k \<leftarrow> vec_get (m_beta s) idx_k;
               vec_set beta_a j beta_k
             }
           }"
  have "\<exists>t. for_loop 0 (int (length ?inds)) ?body (SGVector_zero ?D) = Some t \<and> length t = nat ?D"
  proof (rule for_loop_preserves [where P = "\<lambda>t. length t = nat ?D"])
    show "length (SGVector_zero ?D :: 'a list) = nat ?D" by (simp add: SGVector_zero_def)
    fix m t assume m: "0 \<le> m" "m < int (length ?inds)" and t: "length (t :: 'a list) = nat ?D"
    define k where "k = nat m"
    have k: "k < length ?inds" "m = int k" using m by (simp_all add: k_def)
    have ai: "idx_to_ai (?inds ! k) ?D = Some (basis_point s k, basis_dim s k)"
      using D by (simp add: idx_to_ai_component)
    have rk: "0 \<le> basis_dim s k" "basis_dim s k < ?D"
      using basis_dim_range [of s k] D nonneg k(1) by simp_all
    show "\<exists>t'. ?body m t = Some t' \<and> length t' = nat ?D"
      using k ai rk t beta by (simp add: vec_get_Some vec_set_Some Let_def)
  qed
  then show ?thesis
    by (auto simp: get_beta_for_basis_point_def get_system_size_def Let_def)
qed

subsection \<open>Evaluator: Hessian and its diagonal\<close>

text \<open>
  Claim C6. For a state with a positive number of dimensions, non-negative and
  pairwise distinct basis indices and a \<open>beta\<close> entry for every active component,
  \<open>hessian query\<close> and \<open>hessian_diag query\<close> both return, the first a \<open>D \<times> D\<close>
  matrix and the second a vector of length \<open>D\<close>, and for every dimension \<open>i\<close> in
  \<open>[0, D)\<close> entry \<open>i\<close> of the diagonal is entry \<open>(i, i)\<close> of the Hessian.
\<close>

theorem hessian_diag_agrees:
  assumes D: "0 < get_num_dimensions s"
    and nonneg: "\<forall>x\<in>set (m_basis_inds s). 0 \<le> x"
    and dist: "distinct (m_basis_inds s)"
    and beta: "length (m_basis_inds s) \<le> length (m_beta s)"
  shows "\<exists>H d. hessian s idx_test = Some H \<and> hessian_diag s idx_test = Some d
           \<and> num_rows H = get_num_dimensions s \<and> num_cols H = get_num_dimensions s
           \<and> length d = nat (get_num_dimensions s)
           \<and> (\<forall>i. 0 \<le> i \<and> i < get_num_dimensions s \<longrightarrow>
                  (\<exists>x. vec_get d i = Some x \<and> mat_get H i i = Some x))"
proof -
  let ?D = "get_num_dimensions s"
  let ?inds = "m_basis_inds s"
  let ?n = "int (length ?inds)"
  let ?T = "dx_i_dx_j_dx_k_dot_vec_component (m_kernel s)"
  define shaped where "shaped H \<longleftrightarrow> num_rows H = ?D \<and> num_cols H = ?D
       \<and> length (matrix H) = nat (?D * ?D)" for H :: "'a SGMatrix"
  define dg where "dg H i = matrix H ! nat (i * ?D + i)" for H :: "'a SGMatrix" and i
  let ?inner = "\<lambda>a i beta_a idx_k beta_sum_hessian. do {
                    y \<leftarrow> vec_get (m_basis_inds s) idx_k;
                    bj \<leftarrow> idx_to_ai y ?D;
                    let b = fst bj in
                    if a \<noteq> b then Some beta_sum_hessian
                    else
                      let j = snd bj;
                          beta_hess_sum = ?T a idx_test beta_a i j
                      in mat_add_at beta_sum_hessian i j beta_hess_sum
                  }"
  let ?outer = "\<lambda>idx_l beta_sum_hessian. do {
             x \<leftarrow> vec_get (m_basis_inds s) idx_l;
             ai \<leftarrow> idx_to_ai x ?D;
             let a = fst ai; i = snd ai in
             do {
               beta_a \<leftarrow> get_beta_for_basis_point s a;
               for_loop 0 ?n (?inner a i beta_a) beta_sum_hessian
             }
           }"
  let ?outer_d = "\<lambda>idx_l beta_sum_hessian_diag. do {
             x \<leftarrow> vec_get (m_basis_inds s) idx_l;
             ai \<leftarrow> idx_to_ai x ?D;
             let a = fst ai; i = snd ai in
             do {
               beta_a \<leftarrow> get_beta_for_basis_point s a;
               let beta_hess_sum = ?T a idx_test beta_a i i
               in vec_add_at beta_sum_hessian_diag i beta_hess_sum
             }
           }"
  have dims: "0 \<le> basis_dim s k" "basis_dim s k < ?D" if "k < length ?inds" for k
    using basis_dim_range [of s k] D nonneg that by simp_all
  have ai: "idx_to_ai (?inds ! k) ?D = Some (basis_point s k, basis_dim s k)" for k
    using D by (simp add: idx_to_ai_component)

  have inner: "\<exists>H'. for_loop 0 ?n (?inner (basis_point s l) (basis_dim s l) beta_a) H = Some H'
        \<and> shaped H'
        \<and> (\<forall>i'. 0 \<le> i' \<and> i' < ?D \<longrightarrow>
             dg H' i' = (if i' = basis_dim s l
                         then dg H i' + ?T (basis_point s l) idx_test beta_a (basis_dim s l) (basis_dim s l)
                         else dg H i'))"
    if sh: "shaped H" and l: "l < length ?inds" for H l beta_a
  proof -
    let ?a = "basis_point s l" and ?i = "basis_dim s l"
    let ?t = "?T ?a idx_test beta_a ?i ?i"
    let ?I = "\<lambda>m H'. shaped H' \<and> (\<forall>i'. 0 \<le> i' \<and> i' < ?D \<longrightarrow>
                 dg H' i' = (if i' = ?i \<and> int l < m then dg H i' + ?t else dg H i'))"
    have "\<exists>H'. for_loop 0 ?n (?inner ?a ?i beta_a) H = Some H' \<and> ?I ?n H'"
    proof (rule for_loop_rule [where I = ?I])
      show "?I 0 H" using sh by simp
      show "0 \<le> ?n" by simp
      fix m H' assume m: "0 \<le> m" "m < ?n" and I: "?I m H'"
      define k where "k = nat m"
      have k: "k < length ?inds" "m = int k" using m by (simp_all add: k_def)
      have sh': "shaped H'" using I by simp
      have dg': "dg H' i' = (if i' = ?i \<and> l < k then dg H i' + ?t else dg H i')"
        if "0 \<le> i'" "i' < ?D" for i'
        using I that k(2) by simp
      show "\<exists>t'. ?inner ?a ?i beta_a m H' = Some t' \<and> ?I (m + 1) t'"
      proof (cases "?a = basis_point s k")
        case False
        have A: "?inner ?a ?i beta_a m H' = Some H'"
          using k False ai by (simp add: vec_get_Some Let_def)
        have "k \<noteq> l" using False by auto
        then have B: "?I (m + 1) H'"
          using sh' dg' k(2) by auto
        show ?thesis by (rule exI [of _ H']) (rule conjI [OF A B])
      next
        case True
        let ?j = "basis_dim s k"
        let ?p = "?j * ?D + ?i"
        let ?H'' = "H'\<lparr>matrix := (matrix H')[nat ?p := matrix H' ! nat ?p + ?T ?a idx_test beta_a ?i ?j]\<rparr>"
        have rng: "0 \<le> ?p" "?p < ?D * ?D"
          using flat_index_range [of ?i ?D ?j ?D] dims [OF k(1)] dims [OF l] by simp_all
        have A: "?inner ?a ?i beta_a m H' = Some ?H''"
          using k True ai rng sh' by (simp add: vec_get_Some Let_def mat_add_at_Some shaped_def)
        have sh'': "shaped ?H''" using sh' by (simp add: shaped_def)
        have dg'': "dg ?H'' i' = (if i' = ?i \<and> l < Suc k then dg H i' + ?t else dg H i')"
          if i': "0 \<le> i'" "i' < ?D" for i'
        proof (cases "k = l")
          case kl: True
          have q: "0 \<le> i' * ?D + i'"  "i' * ?D + i' < ?D * ?D"
            using flat_index_range [of i' ?D i' ?D] i' by simp_all
          show ?thesis
          proof (cases "i' = ?i")
            case True
            then show ?thesis using kl dg' [OF i'] rng sh' by (simp add: dg_def shaped_def)
          next
            case False
            then have "i' * ?D + i' \<noteq> ?p"
              using flat_index_inj [of i' ?D ?i i' ?j] i' dims [OF l] by auto
            then have "nat (i' * ?D + i') \<noteq> nat ?p" using q rng by linarith
            then show ?thesis using False dg' [OF i'] by (simp add: dg_def)
          qed
        next
          case kl: False
          have "?j \<noteq> ?i"
          proof
            assume "?j = ?i"
            then have "k = l" using component_inj [OF dist k(1) l] True by simp
            then show False using kl by simp
          qed
          then have "i' * ?D + i' \<noteq> ?p"
            using flat_index_inj [of i' ?D ?i i' ?j] i' dims [OF l] by auto
          moreover have "0 \<le> i' * ?D + i'"
            using flat_index_range [of i' ?D i' ?D] i' by simp
          ultimately have "nat (i' * ?D + i') \<noteq> nat ?p" using rng by linarith
          then have "dg ?H'' i' = dg H' i'" by (simp add: dg_def)
          moreover have "l < Suc k \<longleftrightarrow> l < k" using kl by auto
          ultimately show ?thesis using dg' [OF i'] by simp
        qed
        have "nat (m + 1) = Suc k" "int l < m + 1 \<longleftrightarrow> l < Suc k" using k(2) by auto
        then have B: "?I (m + 1) ?H''" using sh'' dg'' by simp
        show ?thesis by (rule exI [of _ ?H'']) (rule conjI [OF A B])
      qed
    qed
    then show ?thesis using l by auto
  qed

  let ?R = "\<lambda>(m::int) H d. shaped H \<and> length d = nat ?D
              \<and> (\<forall>i. 0 \<le> i \<and> i < ?D \<longrightarrow> dg H i = d ! nat i)"
  have "\<exists>H d. for_loop 0 ?n ?outer (SGMatrix_zero ?D ?D) = Some H
           \<and> for_loop 0 ?n ?outer_d (SGVector_zero ?D) = Some d \<and> ?R ?n H d"
  proof (rule for_loop_rule2 [where R = ?R])
    have "dg (SGMatrix_zero ?D ?D :: 'a SGMatrix) i = 0" if "0 \<le> i" "i < ?D" for i
    proof -
      have "i * ?D + i < ?D * ?D" using flat_index_range [of i ?D i ?D] that by simp
      then show ?thesis using that by (simp add: dg_def SGMatrix_zero_def)
    qed
    then show "?R 0 (SGMatrix_zero ?D ?D) (SGVector_zero ?D)"
      by (simp add: shaped_def SGMatrix_zero_def SGVector_zero_def)
    show "0 \<le> ?n" by simp
    fix m H d assume m: "0 \<le> m" "m < ?n" and R: "?R m H d"
    define l where "l = nat m"
    have l: "l < length ?inds" "m = int l" using m by (simp_all add: l_def)
    let ?a = "basis_point s l" and ?i = "basis_dim s l"
    obtain beta_a where ba: "get_beta_for_basis_point s ?a = Some beta_a"
      using get_beta_for_basis_point_total [OF D nonneg beta] by blast
    let ?t = "?T ?a idx_test beta_a ?i ?i"
    have sh: "shaped H" and len: "length d = nat ?D"
      and eq: "\<And>i. 0 \<le> i \<Longrightarrow> i < ?D \<Longrightarrow> dg H i = d ! nat i"
      using R by simp_all
    from inner [OF sh l(1), of beta_a]
    obtain H' where H': "for_loop 0 ?n (?inner ?a ?i beta_a) H = Some H'" "shaped H'"
      and dgH': "\<And>i'. 0 \<le> i' \<Longrightarrow> i' < ?D \<Longrightarrow>
                   dg H' i' = (if i' = ?i then dg H i' + ?t else dg H i')"
      by blast
    have A1: "?outer m H = Some H'"
      using l ai ba H'(1) by (simp add: vec_get_Some Let_def cong: if_cong)
    let ?d' = "d[nat ?i := d ! nat ?i + ?t]"
    have A2: "?outer_d m d = Some ?d'"
      using l ai ba dims [OF l(1)] len by (simp add: vec_get_Some Let_def vec_add_at_Some)
    have "dg H' i = ?d' ! nat i" if i: "0 \<le> i" "i < ?D" for i
    proof (cases "i = ?i")
      case True
      then show ?thesis using dgH' [OF i] eq [OF i] i len by simp
    next
      case False
      then have "nat i \<noteq> nat ?i" using i dims [OF l(1)] by linarith
      then show ?thesis using dgH' [OF i] eq [OF i] False by simp
    qed
    then have B: "?R (m + 1) H' ?d'" using H'(2) len by simp
    show "\<exists>t1' t2'. ?outer m H = Some t1' \<and> ?outer_d m d = Some t2' \<and> ?R (m + 1) t1' t2'"
      using A1 A2 B by blast
  qed
  then obtain H d where res: "for_loop 0 ?n ?outer (SGMatrix_zero ?D ?D) = Some H"
      "for_loop 0 ?n ?outer_d (SGVector_zero ?D) = Some d"
    and sh: "shaped H" and len: "length d = nat ?D"
    and eq: "\<And>i. 0 \<le> i \<Longrightarrow> i < ?D \<Longrightarrow> dg H i = d ! nat i"
    by auto
  have 1: "hessian s idx_test = Some H"
    using res(1) by (simp add: hessian_def get_system_size_def Let_def)
  have 2: "hessian_diag s idx_test = Some d"
    using res(2) by (simp add: hessian_diag_def get_system_size_def Let_def)
  have 3: "\<exists>x. vec_get d i = Some x \<and> mat_get H i i = Some x" if i: "0 \<le> i" "i < ?D" for i
  proof -
    have "0 \<le> i * ?D + i" "i * ?D + i < ?D * ?D"
      using flat_index_range [of i ?D i ?D] i by simp_all
    then have "mat_get H i i = Some (dg H i)"
      using sh by (simp add: mat_get_Some shaped_def dg_def)
    moreover have "vec_get d i = Some (d ! nat i)" using i len by (simp add: vec_get_Some)
    ultimately show ?thesis using eq [OF i] by simp
  qed
  show ?thesis
    using 1 2 3 sh len by (auto simp: shaped_def)
qed

theorem hessian_diag_agrees_witness:
  "0 < get_num_dimensions (example_state :: int NystromD)
   \<and> distinct (m_basis_inds (example_state :: int NystromD))
   \<and> hessian (example_state :: int NystromD) 1
        = Some \<lparr>num_rows = 2, num_cols = 2, matrix = [6, 6, 6, 15]\<rparr>
   \<and> hessian_diag (example_state :: int NystromD) 1 = Some [6, 15]"
  using hessian_diag_agrees [of "example_state :: int NystromD" 1]
  by (simp add: hessian_def hessian_diag_def get_beta_for_basis_point_def eval_simps mat_eval_simps)

text \<open>
  The basis indices must be pairwise distinct, as \<open>basis_inds_from_mask\<close> makes them:
  were an index repeated, \<open>hessian\<close> would add its diagonal term once per pair of
  equal entries and \<open>hessian_diag\<close> once per entry.
\<close>

lemma hessian_diag_duplicate_indices:
  "hessian (example_state\<lparr>m_basis_inds := [0, 0, 3]\<rparr> :: int NystromD) 1
     = Some \<lparr>num_rows = 2, num_cols = 2, matrix = [16, 0, 0, 8]\<rparr>
   \<and> hessian_diag (example_state\<lparr>m_basis_inds := [0, 0, 3]\<rparr> :: int NystromD) 1 = Some [8, 8]"
  by (simp add: hessian_def hessian_diag_def get_beta_for_basis_point_def eval_simps mat_eval_simps)

end
